theory Spec2Isabelle
  imports Main "HOL-Library.Word" "HOL-Library.Multiset" "HOL-Library.Sublist"
begin

section \<open>Constants and configuration (main.go, lines 28-90)\<close>

text \<open>
  Go's \<^verbatim>\<open>int\<close> and \<^verbatim>\<open>uint\<close> are taken to be 64 bits wide, as on the amd64 and
  arm64 machines the benchmark is run on. Values of type \<^verbatim>\<open>uint\<close> that come from
  the command line are \<open>64 word\<close>; a Go \<^verbatim>\<open>int\<close> is an \<open>int\<close> obtained by \<open>sint\<close>,
  so the conversion \<^verbatim>\<open>int(u)\<close> and the multiplication in \<^verbatim>\<open>parseFlags\<close> wrap
  around exactly as the machine does. After \<^verbatim>\<open>parseFlags\<close> no operation of the
  program can overflow (division by a positive size, comparisons, counting).
\<close>

definition KiB :: int where
  "KiB = 1024"

definition MiB :: int where
  "MiB = 1024 * KiB"

definition S3Prefix :: string where
  "S3Prefix = ''randomdata''"

record fileSet =
  Size :: int

definition fileSets :: "string \<rightharpoonup> fileSet" where
  "fileSets = map_of
     [(''K001'', \<lparr>Size = KiB\<rparr>),
      (''K004'', \<lparr>Size = 4 * KiB\<rparr>),
      (''K016'', \<lparr>Size = 16 * KiB\<rparr>),
      (''K064'', \<lparr>Size = 64 * KiB\<rparr>),
      (''K256'', \<lparr>Size = 256 * KiB\<rparr>),
      (''M001'', \<lparr>Size = MiB\<rparr>),
      (''M004'', \<lparr>Size = 4 * MiB\<rparr>),
      (''M016'', \<lparr>Size = 16 * MiB\<rparr>),
      (''M032'', \<lparr>Size = 32 * MiB\<rparr>),
      (''M064'', \<lparr>Size = 64 * MiB\<rparr>),
      (''M128'', \<lparr>Size = 128 * MiB\<rparr>),
      (''M256'', \<lparr>Size = 256 * MiB\<rparr>)]"

text \<open>
  \<^verbatim>\<open>fileSets[name].Size\<close> as Go evaluates it: a label that is not in the map yields
  the zero value of the struct, whose size is 0.
\<close>

definition fileSetSize :: "string \<Rightarrow> int" where
  "fileSetSize name = (case fileSets name of None \<Rightarrow> 0 | Some fs \<Rightarrow> Size fs)"

record myConfig =
  Count :: int
  DownloadSizeBytes :: int
  EC2Instance :: string
  FileSetName :: string
  Goroutines :: int

text \<open>Go's integer division and remainder truncate towards zero.\<close>

definition go_quo :: "int \<Rightarrow> int \<Rightarrow> int" where
  "go_quo a b = sgn a * sgn b * (\<bar>a\<bar> div \<bar>b\<bar>)"

definition go_rem :: "int \<Rightarrow> int \<Rightarrow> int" where
  "go_rem a b = a - b * go_quo a b"

section \<open>Ways the process can die\<close>

text \<open>
  \<^verbatim>\<open>log.Fatal\<close> and \<^verbatim>\<open>log.Fatalf\<close> print a diagnostic and call \<^verbatim>\<open>os.Exit(1)\<close>; a
  run-time panic that nobody recovers ends the process with status 2. Each call
  site of the source is one constructor.
\<close>

datatype go_error =
  NoS3FilesFound  \<comment> \<open>\<^verbatim>\<open>errors.New("no S3 files found for file set")\<close>\<close>

datatype fatal =
  UnknownFileSet string            \<comment> \<open>line 102\<close>
| NotMultipleOfFileSetSize         \<comment> \<open>line 107\<close>
| TooManyGoroutines                \<comment> \<open>line 112\<close>
| FailedToGetPage nat              \<comment> \<open>line 181\<close>
| ZeroFilesNeeded                  \<comment> \<open>line 210\<close>
| ErrorDownloading string          \<comment> \<open>line 234\<close>
| ErrorConfiguringS3               \<comment> \<open>line 247\<close>
| ErrorBuildingFileList go_error   \<comment> \<open>line 253\<close>
| ErrorEncodingDatapoint           \<comment> \<open>line 325\<close>

datatype panic =
  DivideByZero       \<comment> \<open>integer division by zero\<close>
| MakeSliceCap       \<comment> \<open>\<^verbatim>\<open>make([]string, 0, n)\<close> with negative \<open>n\<close>\<close>
| MakeChanSize       \<comment> \<open>\<^verbatim>\<open>make(chan T, n)\<close> with negative \<open>n\<close>\<close>
| SendOnClosedChan   \<comment> \<open>send on a closed channel\<close>

datatype abort = Fatal fatal | Panic panic

fun exit_status :: "abort \<Rightarrow> int" where
  "exit_status (Fatal _) = 1"
| "exit_status (Panic _) = 2"

section \<open>parseFlags (main.go, lines 92-122)\<close>

text \<open>The five command-line flags after \<^verbatim>\<open>pflag.Parse()\<close>.\<close>

record flags =
  flag_count :: "64 word"
  flag_instance :: string
  flag_goroutines :: "64 word"
  flag_set :: string
  flag_download :: "64 word"

definition parseFlags :: "flags \<Rightarrow> abort + myConfig" where
  "parseFlags fl =
     (case fileSets (flag_set fl) of
        None \<Rightarrow> Inl (Fatal (UnknownFileSet (flag_set fl)))
      | Some fs \<Rightarrow>
          (let dlSize = sint (flag_download fl * 1048576) in
           if go_rem dlSize (Size fs) \<noteq> 0 then Inl (Fatal NotMultipleOfFileSetSize)
           else
             (let dlCount = go_quo dlSize (Size fs) in
              if sint (flag_goroutines fl) > dlCount then Inl (Fatal TooManyGoroutines)
              else Inr \<lparr>Count = sint (flag_count fl),
                        DownloadSizeBytes = dlSize,
                        EC2Instance = flag_instance fl,
                        FileSetName = flag_set fl,
                        Goroutines = sint (flag_goroutines fl)\<rparr>)))"

section \<open>The object store and the random source\<close>

text \<open>
  The S3 client, its paginator and \<^verbatim>\<open>math/rand\<close> are libraries outside the
  repository; what they answer is a parameter of the model.

  A listing is the sequence of answers to \<^verbatim>\<open>NextPage\<close>: pages that carry a
  continuation token (\<open>MorePages\<close>), ended by a page without one (\<open>LastPage\<close>) or by
  an error (\<open>PageErr\<close>). \<^verbatim>\<open>HasMorePages\<close> is true before the first call and after
  every page with a token, so the first \<^verbatim>\<open>NextPage\<close> is always made. A bucket
  holds finitely many objects, so a listing is finite.
\<close>

datatype s3_pages =
  PageErr
| LastPage "string list"
| MorePages "string list" s3_pages

record env =
  s3_config_ok :: bool                  \<comment> \<open>does \<^verbatim>\<open>config.LoadDefaultConfig\<close> succeed\<close>
  s3_list :: "string \<Rightarrow> s3_pages"        \<comment> \<open>the listing under a prefix\<close>
  draw :: "nat \<Rightarrow> nat"                   \<comment> \<open>the random number drawn at index \<open>i\<close> of the shuffle\<close>

section \<open>listS3Files (main.go, lines 164-196)\<close>

text \<open>
  The loop over the pages, with the page counter \<open>i\<close> and the slice \<open>files\<close>. A
  failing \<^verbatim>\<open>NextPage\<close> ends the process inside the loop.
\<close>

fun list_pages :: "s3_pages \<Rightarrow> nat \<Rightarrow> string list \<Rightarrow> abort + string list" where
  "list_pages PageErr i files = Inl (Fatal (FailedToGetPage (Suc i)))"
| "list_pages (LastPage ks) i files = Inr (files @ ks)"
| "list_pages (MorePages ks rest) i files = list_pages rest (Suc i) (files @ ks)"

text \<open>\<^verbatim>\<open>files[i], files[j] = files[j], files[i]\<close>\<close>

definition swap_files :: "'a list \<Rightarrow> nat \<Rightarrow> nat \<Rightarrow> 'a list" where
  "swap_files files i j = files[i := files ! j, j := files ! i]"

text \<open>
  \<^verbatim>\<open>rand.Shuffle(n, swap)\<close> is the Fisher-Yates shuffle: for \<open>i\<close> from \<open>n - 1\<close> down
  to 1 it draws \<open>j\<close> with \<open>0 \<le> j \<le> i\<close> and calls \<open>swap(i, j)\<close>. The draw is the
  parameter \<open>draw\<close>, reduced to the range the library promises.
\<close>

fun shuffle_loop :: "(nat \<Rightarrow> nat) \<Rightarrow> nat \<Rightarrow> 'a list \<Rightarrow> 'a list" where
  "shuffle_loop d 0 files = files"
| "shuffle_loop d (Suc i) files =
     shuffle_loop d i (swap_files files (Suc i) (d (Suc i) mod Suc (Suc i)))"

definition Shuffle :: "(nat \<Rightarrow> nat) \<Rightarrow> 'a list \<Rightarrow> 'a list" where
  "Shuffle d files = shuffle_loop d (length files - 1) files"

text \<open>\<^verbatim>\<open>path.Join(S3Prefix, cfg.FileSetName)\<close> for a label of the table.\<close>

definition s3_prefix :: "myConfig \<Rightarrow> string" where
  "s3_prefix cfg = S3Prefix @ ''/'' @ FileSetName cfg"

text \<open>The keys of all pages, in the order listed, before the shuffle.\<close>

definition discovered :: "env \<Rightarrow> myConfig \<Rightarrow> abort + string list" where
  "discovered e cfg = list_pages (s3_list e (s3_prefix cfg)) 0 []"

text \<open>
  The function returns the shuffled keys and a Go error that is always \<^verbatim>\<open>nil\<close>
  (\<open>None\<close>); it never returns when a page fails.
\<close>

definition listS3Files :: "env \<Rightarrow> myConfig \<Rightarrow> abort + (string list \<times> go_error option)" where
  "listS3Files e cfg =
     (case discovered e cfg of
        Inl a \<Rightarrow> Inl a
      | Inr files \<Rightarrow> Inr (Shuffle (draw e) files, None))"

section \<open>buildDownloadList (main.go, lines 198-223)\<close>

text \<open>
  One pass of \<^verbatim>\<open>for _, f := range fileList\<close>: \<open>Inl\<close> is the \<^verbatim>\<open>return files, nil\<close>
  inside the loop, \<open>Inr\<close> the slice when the pass ends without returning.
\<close>

fun pass :: "string list \<Rightarrow> int \<Rightarrow> string list \<Rightarrow> string list + string list" where
  "pass [] n files = Inr files"
| "pass (f # fs) n files =
     (if int (length (files @ [f])) \<ge> n then Inl (files @ [f])
      else pass fs n (files @ [f]))"

text \<open>
  The enclosing \<^verbatim>\<open>for { ... }\<close> has no exit of its own: with an empty
  \<open>fileList\<close> it would spin for ever, which is the value \<open>None\<close>.
\<close>

partial_function (option) cycle :: "string list \<Rightarrow> int \<Rightarrow> string list \<Rightarrow> string list option" where
  "cycle fileList n files =
     (case pass fileList n files of
        Inl out \<Rightarrow> Some out
      | Inr files' \<Rightarrow> cycle fileList n files')"

declare cycle.simps [code]

text \<open>
  The result is \<open>None\<close> when the function does not return, \<open>Some (Inl a)\<close> when the
  process dies inside it, \<open>Some (Inr (Inl err))\<close> when it returns a Go error and
  \<open>Some (Inr (Inr files))\<close> when it returns the work list. The memory a very large
  \<^verbatim>\<open>make\<close> would need is not modelled.
\<close>

definition buildDownloadList :: "env \<Rightarrow> myConfig \<Rightarrow> (abort + go_error + string list) option" where
  "buildDownloadList e cfg =
     (case listS3Files e cfg of
        Inl a \<Rightarrow> Some (Inl a)
      | Inr (fileList, err) \<Rightarrow>
          (case err of
             Some er \<Rightarrow> Some (Inr (Inl er))
           | None \<Rightarrow>
               if length fileList = 0 then Some (Inr (Inl NoS3FilesFound))
               else if fileSetSize (FileSetName cfg) = 0 then Some (Inl (Panic DivideByZero))
               else
                 (let numFilesNeeded = go_quo (DownloadSizeBytes cfg) (fileSetSize (FileSetName cfg)) in
                  if numFilesNeeded = 0 then Some (Inl (Fatal ZeroFilesNeeded))
                  else if numFilesNeeded < 0 then Some (Inl (Panic MakeSliceCap))
                  else map_option (\<lambda>files. Inr (Inr files)) (cycle fileList numFilesNeeded []))))"

section \<open>Auxiliary definitions for the work list\<close>

text \<open>
  The first \<open>k\<close> elements of the endless repetition of a list \<open>L\<close>; used to
  describe what the loops of \<^verbatim>\<open>buildDownloadList\<close> compute.
\<close>

definition cyc :: "'a list \<Rightarrow> nat \<Rightarrow> 'a list" where
  "cyc L k = map (\<lambda>i. L ! (i mod length L)) [0..<k]"

text \<open>A small configuration and object store on which the theorems are evaluated.\<close>

definition demo_cfg :: myConfig where
  "demo_cfg = \<lparr>Count = 1, DownloadSizeBytes = 5120, EC2Instance = ''c5n.2xlarge'',
               FileSetName = ''K001'', Goroutines = 2\<rparr>"

definition demo_env :: env where
  "demo_env = \<lparr>s3_config_ok = True,
               s3_list = (\<lambda>p. MorePages [''a''] (LastPage [''b''])),
               draw = (\<lambda>i. 0)\<rparr>"

section \<open>The Datapoint and the floating-point library (main.go, lines 124-138)\<close>

text \<open>
  \<^verbatim>\<open>float64\<close> is the type parameter \<open>'f\<close>. The operations on it that the program
  uses, the t-digest of \<^verbatim>\<open>github.com/influxdata/tdigest\<close> and \<^verbatim>\<open>json.Marshal\<close> are
  libraries outside the repository and are parameters of the model (\<open>lib\<close>). The
  state of the digest is the list of the samples added to it, in order.
\<close>

record 'f Datapoint =
  dp_EC2Instance :: string
  FileSizeBytes :: int
  FileSizeLabel :: string
  dp_Goroutines :: int
  TotalSizeBytes :: int
  ElapsedSecs :: 'f
  P50Latency :: 'f
  P95Latency :: 'f
  P99Latency :: 'f
  ThroughputMiBs :: 'f

record 'f lib =
  Seconds :: "int \<Rightarrow> 'f"              \<comment> \<open>\<^verbatim>\<open>Duration.Seconds()\<close> of a duration in nanoseconds\<close>
  TDQuantile :: "'f list \<Rightarrow> nat \<Rightarrow> 'f"  \<comment> \<open>\<^verbatim>\<open>td.Quantile(q)\<close> after the given \<^verbatim>\<open>td.Add(v, 1)\<close>, \<open>q\<close> in percent\<close>
  throughput :: "int \<Rightarrow> 'f \<Rightarrow> 'f"     \<comment> \<open>\<^verbatim>\<open>float64(bytes) / MiB / elapsedSec\<close>\<close>
  json_ok :: "'f Datapoint \<Rightarrow> bool"   \<comment> \<open>\<^verbatim>\<open>json.Marshal\<close> returns no error\<close>

section \<open>run: the sequential prefix (main.go, lines 242-261)\<close>

definition chanSize :: "myConfig \<Rightarrow> int" where
  "chanSize cfg = (if Goroutines cfg > 1024 then 1024 else Goroutines cfg)"

text \<open>
  Lines 244-264: configure the client, build the work list, size the channels.
  The result is the work list with which the goroutines are started; \<open>None\<close> when
  \<^verbatim>\<open>buildDownloadList\<close> does not return.
\<close>

definition run_setup :: "env \<Rightarrow> myConfig \<Rightarrow> (abort + string list) option" where
  "run_setup e cfg =
     (if \<not> s3_config_ok e then Some (Inl (Fatal ErrorConfiguringS3))
      else
        (case buildDownloadList e cfg of
           None \<Rightarrow> None
         | Some (Inl a) \<Rightarrow> Some (Inl a)
         | Some (Inr (Inl err)) \<Rightarrow> Some (Inl (Fatal (ErrorBuildingFileList err)))
         | Some (Inr (Inr downloadList)) \<Rightarrow>
             if chanSize cfg < 0 then Some (Inl (Panic MakeChanSize))
             else Some (Inr downloadList)))"

section \<open>run and downloader: the goroutines (main.go, lines 225-240 and 263-331)\<close>

text \<open>
  From line 264 on, \<^verbatim>\<open>run\<close> is a concurrent program: the feeder, the collector,
  the main goroutine and the downloaders share the channels \<open>work\<close> and \<open>latency\<close>,
  the channel \<open>latencyDone\<close> and the wait group. It is modelled as an interleaving
  of atomic actions, one for each statement that touches shared state, the clock
  or the outside world. Each goroutine has a program counter.

  \<^verbatim>\<open>log.Fatalf\<close> in any goroutine ends the whole process; the deferred
  \<^verbatim>\<open>resp.Body.Close()\<close> calls of line 237 run when \<^verbatim>\<open>downloader\<close> returns, touch
  nothing that is shared, and are part of the action that ends a downloader.

  A downloader is at one of these places of lines 226-239:
\<close>

datatype 'f worker =
  WRecv                 \<comment> \<open>line 226, receiving from \<open>work\<close>\<close>
| WNow string           \<comment> \<open>line 227, holding \<open>f\<close>, before \<^verbatim>\<open>start := time.Now()\<close>\<close>
| WGet string int       \<comment> \<open>line 232, before \<^verbatim>\<open>GetObject\<close> returns; \<open>f\<close> and \<open>start\<close>\<close>
| WSince string int     \<comment> \<open>line 236, before \<^verbatim>\<open>time.Since(start).Seconds()\<close>\<close>
| WSend string 'f       \<comment> \<open>line 236, sending the sample on \<open>latency\<close>\<close>
| WCopy string          \<comment> \<open>lines 237-238, before \<^verbatim>\<open>io.Copy(io.Discard, resp.Body)\<close>\<close>
| WDone                 \<comment> \<open>the loop has ended and \<^verbatim>\<open>wg.Done()\<close> has run\<close>

text \<open>The main goroutine, from line 284 to line 330.\<close>

datatype 'f main_pc =
  MStart                    \<comment> \<open>line 284, before \<^verbatim>\<open>startTime := time.Now()\<close>\<close>
| MSpawn int nat            \<comment> \<open>lines 289-295, \<open>startTime\<close> and the loop counter \<open>i\<close>\<close>
| MWait int                 \<comment> \<open>line 298, in \<^verbatim>\<open>wg.Wait()\<close>\<close>
| MElapsed int              \<comment> \<open>line 299\<close>
| MClose 'f                 \<comment> \<open>line 302, holding \<open>elapsedSec\<close>\<close>
| MAwait 'f                 \<comment> \<open>line 303, in \<^verbatim>\<open><-latencyDone\<close>\<close>
| MQ50 'f                   \<comment> \<open>line 317\<close>
| MQ95 'f 'f                \<comment> \<open>line 318\<close>
| MQ99 'f 'f 'f             \<comment> \<open>lines 319-320\<close>
| MMarshal "'f Datapoint"   \<comment> \<open>line 323\<close>
| MPrint "'f Datapoint"     \<comment> \<open>line 328\<close>
| MReturn                   \<comment> \<open>line 330\<close>

text \<open>
  The feeder (lines 265-270) is at index \<open>fed\<close> of the work list, and has closed
  \<open>work\<close> or not. The collector (lines 276-281) owns the digest \<open>td\<close> and has closed
  \<open>latencyDone\<close> or not. A channel is its buffer and its closed flag.
\<close>

record 'f state =
  clock :: int                      \<comment> \<open>the last reading of the monotonic clock, in nanoseconds\<close>
  fed :: nat
  work :: "string list"
  work_closed :: bool
  latency :: "'f list"
  latency_closed :: bool
  latencyDone :: bool
  td :: "'f list"
  workers :: "'f worker list"       \<comment> \<open>the downloaders started so far\<close>
  wg :: int                         \<comment> \<open>the counter of the wait group\<close>
  mainpc :: "'f main_pc"
  died :: "abort option"            \<comment> \<open>set when the process has exited\<close>
  stdout :: "'f Datapoint list"     \<comment> \<open>the records printed by line 328\<close>

text \<open>The state at line 284: feeder and collector are started, nothing has moved.\<close>

definition init :: "'f state" where
  "init = \<lparr>clock = 0, fed = 0, work = [], work_closed = False, latency = [],
           latency_closed = False, latencyDone = False, td = [], workers = [], wg = 0,
           mainpc = MStart, died = None, stdout = []\<rparr>"

text \<open>
  The atomic actions. An action names the goroutine that moves (a downloader by
  its index) and carries what an observer sees: the key received, the clock
  reading, the sample sent or added, the outcome of a call to the object store.
\<close>

datatype 'f action =
  Feed string          \<comment> \<open>line 267, \<^verbatim>\<open>work <- f\<close>\<close>
| CloseWork            \<comment> \<open>line 269\<close>
| Recv nat string      \<comment> \<open>line 226, downloader \<open>w\<close> receives \<open>f\<close>\<close>
| Finish nat           \<comment> \<open>line 226 finds \<open>work\<close> closed and empty; \<^verbatim>\<open>wg.Done()\<close>\<close>
| Now nat int          \<comment> \<open>line 227\<close>
| GetOk nat            \<comment> \<open>line 232, \<^verbatim>\<open>GetObject\<close> returns a response\<close>
| GetErr nat           \<comment> \<open>lines 232-235, \<^verbatim>\<open>GetObject\<close> returns an error\<close>
| Since nat int        \<comment> \<open>line 236, the clock is read\<close>
| Send nat 'f          \<comment> \<open>line 236, the sample is sent\<close>
| Copy nat bool        \<comment> \<open>line 238, the body is read to its end (\<open>True\<close>) or the read fails\<close>
| Ingest 'f            \<comment> \<open>lines 277-278, receive and \<^verbatim>\<open>td.Add(v, 1)\<close>\<close>
| CollectorDone        \<comment> \<open>line 280\<close>
| MainStart int        \<comment> \<open>line 284\<close>
| Spawn                \<comment> \<open>lines 289-294, \<^verbatim>\<open>wg.Add(1)\<close> and \<^verbatim>\<open>go\<close>\<close>
| SpawnEnd             \<comment> \<open>line 289, the loop condition fails\<close>
| Wait                 \<comment> \<open>line 298, \<^verbatim>\<open>wg.Wait()\<close> returns\<close>
| Elapsed int          \<comment> \<open>line 299\<close>
| CloseLatency         \<comment> \<open>line 302\<close>
| Await                \<comment> \<open>line 303\<close>
| Quantile nat 'f      \<comment> \<open>lines 317-319, \<^verbatim>\<open>td.Quantile(q)\<close> returns \<open>v\<close>\<close>
| Marshal              \<comment> \<open>lines 323-326\<close>
| Println              \<comment> \<open>line 328\<close>

text \<open>
  A send on a channel blocks while the buffer is full, a receive while it is
  empty and the channel is open. Both channels have capacity
  \<open>min(Goroutines, 1024)\<close>; this is 0 only when no downloader exists, and then no
  send on \<open>work\<close> ever meets a receiver and nothing is ever sent on \<open>latency\<close>, so
  the buffer describes the unbuffered channel too.

  A clock reading is any value not below the previous one.
\<close>

definition set_worker :: "nat \<Rightarrow> 'f worker \<Rightarrow> 'f state \<Rightarrow> 'f state" where
  "set_worker w x s = s\<lparr>workers := (workers s)[w := x]\<rparr>"

fun worker_at :: "'f state \<Rightarrow> nat \<Rightarrow> 'f worker option" where
  "worker_at s w = (if w < length (workers s) then Some (workers s ! w) else None)"

fun act :: "'f lib \<Rightarrow> myConfig \<Rightarrow> string list \<Rightarrow> 'f action \<Rightarrow> 'f state \<Rightarrow> 'f state option" where
  "act l cfg dl (Feed f) s =
     (if fed s < length dl \<and> f = dl ! fed s \<and> int (length (work s)) < chanSize cfg
      then Some (s\<lparr>work := work s @ [f], fed := Suc (fed s)\<rparr>) else None)"
| "act l cfg dl CloseWork s =
     (if fed s = length dl \<and> \<not> work_closed s
      then Some (s\<lparr>work_closed := True\<rparr>) else None)"
| "act l cfg dl (Recv w f) s =
     (case worker_at s w of
        Some WRecv \<Rightarrow>
          (case work s of
             [] \<Rightarrow> None
           | f' # rest \<Rightarrow> if f = f' then Some (set_worker w (WNow f) (s\<lparr>work := rest\<rparr>)) else None)
      | _ \<Rightarrow> None)"
| "act l cfg dl (Finish w) s =
     (case worker_at s w of
        Some WRecv \<Rightarrow>
          if work s = [] \<and> work_closed s
          then Some (set_worker w WDone (s\<lparr>wg := wg s - 1\<rparr>)) else None
      | _ \<Rightarrow> None)"
| "act l cfg dl (Now w t) s =
     (case worker_at s w of
        Some (WNow f) \<Rightarrow>
          if clock s \<le> t then Some (set_worker w (WGet f t) (s\<lparr>clock := t\<rparr>)) else None
      | _ \<Rightarrow> None)"
| "act l cfg dl (GetOk w) s =
     (case worker_at s w of
        Some (WGet f start) \<Rightarrow> Some (set_worker w (WSince f start) s)
      | _ \<Rightarrow> None)"
| "act l cfg dl (GetErr w) s =
     (case worker_at s w of
        Some (WGet f start) \<Rightarrow> Some (s\<lparr>died := Some (Fatal (ErrorDownloading f))\<rparr>)
      | _ \<Rightarrow> None)"
| "act l cfg dl (Since w t) s =
     (case worker_at s w of
        Some (WSince f start) \<Rightarrow>
          if clock s \<le> t
          then Some (set_worker w (WSend f (Seconds l (t - start))) (s\<lparr>clock := t\<rparr>)) else None
      | _ \<Rightarrow> None)"
| "act l cfg dl (Send w v) s =
     (case worker_at s w of
        Some (WSend f v') \<Rightarrow>
          if v \<noteq> v' then None
          else if latency_closed s then Some (s\<lparr>died := Some (Panic SendOnClosedChan)\<rparr>)
          else if int (length (latency s)) < chanSize cfg
          then Some (set_worker w (WCopy f) (s\<lparr>latency := latency s @ [v]\<rparr>)) else None
      | _ \<Rightarrow> None)"
| "act l cfg dl (Copy w ok) s =
     (case worker_at s w of
        Some (WCopy f) \<Rightarrow> Some (set_worker w WRecv s)
      | _ \<Rightarrow> None)"
| "act l cfg dl (Ingest v) s =
     (if latencyDone s then None
      else
        (case latency s of
           [] \<Rightarrow> None
         | v' # rest \<Rightarrow> if v = v' then Some (s\<lparr>latency := rest, td := td s @ [v]\<rparr>) else None))"
| "act l cfg dl CollectorDone s =
     (if \<not> latencyDone s \<and> latency s = [] \<and> latency_closed s
      then Some (s\<lparr>latencyDone := True\<rparr>) else None)"
| "act l cfg dl (MainStart t) s =
     (case mainpc s of
        MStart \<Rightarrow> if clock s \<le> t then Some (s\<lparr>mainpc := MSpawn t 0, clock := t\<rparr>) else None
      | _ \<Rightarrow> None)"
| "act l cfg dl Spawn s =
     (case mainpc s of
        MSpawn startTime i \<Rightarrow>
          if int i < Goroutines cfg
          then Some (s\<lparr>wg := wg s + 1, workers := workers s @ [WRecv],
                       mainpc := MSpawn startTime (Suc i)\<rparr>)
          else None
      | _ \<Rightarrow> None)"
| "act l cfg dl SpawnEnd s =
     (case mainpc s of
        MSpawn startTime i \<Rightarrow>
          if int i < Goroutines cfg then None else Some (s\<lparr>mainpc := MWait startTime\<rparr>)
      | _ \<Rightarrow> None)"
| "act l cfg dl Wait s =
     (case mainpc s of
        MWait startTime \<Rightarrow> if wg s = 0 then Some (s\<lparr>mainpc := MElapsed startTime\<rparr>) else None
      | _ \<Rightarrow> None)"
| "act l cfg dl (Elapsed t) s =
     (case mainpc s of
        MElapsed startTime \<Rightarrow>
          if clock s \<le> t
          then Some (s\<lparr>mainpc := MClose (Seconds l (t - startTime)), clock := t\<rparr>) else None
      | _ \<Rightarrow> None)"
| "act l cfg dl CloseLatency s =
     (case mainpc s of
        MClose elapsedSec \<Rightarrow> Some (s\<lparr>latency_closed := True, mainpc := MAwait elapsedSec\<rparr>)
      | _ \<Rightarrow> None)"
| "act l cfg dl Await s =
     (case mainpc s of
        MAwait elapsedSec \<Rightarrow> if latencyDone s then Some (s\<lparr>mainpc := MQ50 elapsedSec\<rparr>) else None
      | _ \<Rightarrow> None)"
| "act l cfg dl (Quantile q v) s =
     (if v \<noteq> TDQuantile l (td s) q then None
      else
        (case mainpc s of
           MQ50 elapsedSec \<Rightarrow> if q = 50 then Some (s\<lparr>mainpc := MQ95 elapsedSec v\<rparr>) else None
         | MQ95 elapsedSec p50 \<Rightarrow> if q = 95 then Some (s\<lparr>mainpc := MQ99 elapsedSec p50 v\<rparr>) else None
         | MQ99 elapsedSec p50 p95 \<Rightarrow>
             if q = 99
             then Some (s\<lparr>mainpc := MMarshal
                    \<lparr>dp_EC2Instance = EC2Instance cfg,
                     FileSizeBytes = fileSetSize (FileSetName cfg),
                     FileSizeLabel = FileSetName cfg,
                     dp_Goroutines = Goroutines cfg,
                     TotalSizeBytes = DownloadSizeBytes cfg,
                     ElapsedSecs = elapsedSec,
                     P50Latency = p50,
                     P95Latency = p95,
                     P99Latency = v,
                     ThroughputMiBs = throughput l (DownloadSizeBytes cfg) elapsedSec\<rparr>\<rparr>)
             else None
         | _ \<Rightarrow> None))"
| "act l cfg dl Marshal s =
     (case mainpc s of
        MMarshal datapoint \<Rightarrow>
          if json_ok l datapoint then Some (s\<lparr>mainpc := MPrint datapoint\<rparr>)
          else Some (s\<lparr>died := Some (Fatal ErrorEncodingDatapoint)\<rparr>)
      | _ \<Rightarrow> None)"
| "act l cfg dl Println s =
     (case mainpc s of
        MPrint datapoint \<Rightarrow> Some (s\<lparr>stdout := stdout s @ [datapoint], mainpc := MReturn\<rparr>)
      | _ \<Rightarrow> None)"

text \<open>Once the process has exited, no goroutine moves.\<close>

definition fire :: "'f lib \<Rightarrow> myConfig \<Rightarrow> string list \<Rightarrow> 'f action \<Rightarrow> 'f state \<Rightarrow> 'f state option" where
  "fire l cfg dl a s = (if died s \<noteq> None then None else act l cfg dl a s)"

text \<open>An execution is a list of actions, each enabled in the state before it.\<close>

fun exec :: "'f lib \<Rightarrow> myConfig \<Rightarrow> string list \<Rightarrow> 'f action list \<Rightarrow> 'f state \<Rightarrow> 'f state option" where
  "exec l cfg dl [] s = Some s"
| "exec l cfg dl (a # as) s =
     (case fire l cfg dl a s of None \<Rightarrow> None | Some s' \<Rightarrow> exec l cfg dl as s')"

text \<open>
  How a call of \<^verbatim>\<open>run\<close> can end: the process dies (in the sequential prefix or
  later), or \<^verbatim>\<open>run\<close> returns 0. In both cases with what the call has printed.
\<close>

datatype 'f run_end = Died abort "'f Datapoint list" | Returned int "'f Datapoint list"

inductive run_ends :: "env \<Rightarrow> 'f lib \<Rightarrow> myConfig \<Rightarrow> 'f run_end \<Rightarrow> bool" where
  setup_dies: "run_setup e cfg = Some (Inl a) \<Longrightarrow> run_ends e l cfg (Died a [])"
| later_dies: "run_setup e cfg = Some (Inr dl) \<Longrightarrow> exec l cfg dl as init = Some s \<Longrightarrow>
     died s = Some a \<Longrightarrow> run_ends e l cfg (Died a (stdout s))"
| returns: "run_setup e cfg = Some (Inr dl) \<Longrightarrow> exec l cfg dl as init = Some s \<Longrightarrow>
     mainpc s = MReturn \<Longrightarrow> run_ends e l cfg (Returned 0 (stdout s))"

section \<open>What an execution shows\<close>

text \<open>
  The keys received by the downloaders, the samples they sent and the samples
  the collector added to the digest, each in the order of the execution and, for
  the downloaders, with the index of the downloader.
\<close>

fun recv_of :: "'f action \<Rightarrow> (nat \<times> string) list" where
  "recv_of (Recv w f) = [(w, f)]"
| "recv_of _ = []"

fun send_of :: "'f action \<Rightarrow> (nat \<times> 'f) list" where
  "send_of (Send w v) = [(w, v)]"
| "send_of _ = []"

fun ingest_of :: "'f action \<Rightarrow> 'f list" where
  "ingest_of (Ingest v) = [v]"
| "ingest_of _ = []"

definition received :: "'f action list \<Rightarrow> (nat \<times> string) list" where
  "received as = concat (map recv_of as)"

definition sent :: "'f action list \<Rightarrow> (nat \<times> 'f) list" where
  "sent as = concat (map send_of as)"

definition ingested :: "'f action list \<Rightarrow> 'f list" where
  "ingested as = concat (map ingest_of as)"

text \<open>The downloader that performs an action, and the actions of one downloader.\<close>

fun actor :: "'f action \<Rightarrow> nat option" where
  "actor (Recv w f) = Some w"
| "actor (Finish w) = Some w"
| "actor (Now w t) = Some w"
| "actor (GetOk w) = Some w"
| "actor (GetErr w) = Some w"
| "actor (Since w t) = Some w"
| "actor (Send w v) = Some w"
| "actor (Copy w ok) = Some w"
| "actor _ = None"

definition wacts :: "nat \<Rightarrow> 'f action list \<Rightarrow> 'f action list" where
  "wacts w as = filter (\<lambda>a. actor a = Some w) as"

text \<open>An execution in which every read of a body succeeds.\<close>

fun heal :: "'f action \<Rightarrow> 'f action" where
  "heal (Copy w ok) = Copy w True"
| "heal a = a"

text \<open>
  The number (from 1) of the \<^verbatim>\<open>NextPage\<close> call that fails in a listing, if one does.
\<close>

fun failing_page :: "s3_pages \<Rightarrow> nat option" where
  "failing_page PageErr = Some 1"
| "failing_page (LastPage ks) = None"
| "failing_page (MorePages ks rest) = map_option Suc (failing_page rest)"

section \<open>Invariants of the goroutines\<close>

text \<open>How far the main goroutine has come.\<close>

fun rank :: "'f main_pc \<Rightarrow> nat" where
  "rank MStart = 0"
| "rank (MSpawn st i) = 1"
| "rank (MWait st) = 2"
| "rank (MElapsed st) = 3"
| "rank (MClose el) = 4"
| "rank (MAwait el) = 5"
| "rank (MQ50 el) = 6"
| "rank (MQ95 el p50) = 7"
| "rank (MQ99 el p50 p95) = 8"
| "rank (MMarshal dp) = 9"
| "rank (MPrint dp) = 10"
| "rank MReturn = 11"

text \<open>
  A downloader counts in the wait group until it is done, and holds a work item
  between receiving it and sending its sample.
\<close>

definition alive :: "'f worker \<Rightarrow> int" where
  "alive x = (if x = WDone then 0 else 1)"

fun inflight :: "'f worker \<Rightarrow> nat" where
  "inflight (WNow f) = 1"
| "inflight (WGet f start) = 1"
| "inflight (WSince f start) = 1"
| "inflight (WSend f v) = 1"
| "inflight _ = 0"

definition holding :: "'f state \<Rightarrow> nat \<Rightarrow> nat" where
  "holding s w = (if w < length (workers s) then inflight (workers s ! w) else 0)"

text \<open>
  Invariants of the state alone: the wait group counts the live downloaders; the
  main goroutine has started as many downloaders as its loop counter says; past
  \<^verbatim>\<open>wg.Wait()\<close> the counter is 0; \<open>latency\<close> is closed only past line 302 and
  \<open>latencyDone\<close> only when \<open>latency\<close> is closed and drained; \<open>work\<close> is closed only when
  everything was fed, and a downloader is done only when \<open>work\<close> is closed and
  drained; something is printed only at the return, and never by a process that died.
\<close>

definition inv1 :: "'f state \<Rightarrow> bool" where
  "inv1 s = (wg s = sum_list (map alive (workers s)))"

definition inv2 :: "myConfig \<Rightarrow> 'f state \<Rightarrow> bool" where
  "inv2 cfg s =
     ((mainpc s = MStart \<longrightarrow> workers s = []) \<and>
      (\<forall>st i. mainpc s = MSpawn st i \<longrightarrow>
         length (workers s) = i \<and> int i \<le> max 0 (Goroutines cfg)) \<and>
      (2 \<le> rank (mainpc s) \<longrightarrow> int (length (workers s)) = max 0 (Goroutines cfg)))"

definition inv3 :: "'f state \<Rightarrow> bool" where
  "inv3 s = (3 \<le> rank (mainpc s) \<longrightarrow> wg s = 0)"

definition inv4 :: "'f state \<Rightarrow> bool" where
  "inv4 s = ((latency_closed s \<longrightarrow> 5 \<le> rank (mainpc s)) \<and>
             (latencyDone s \<longrightarrow> latency_closed s \<and> latency s = []) \<and>
             (5 \<le> rank (mainpc s) \<longrightarrow> latency_closed s) \<and>
             (6 \<le> rank (mainpc s) \<longrightarrow> latencyDone s))"

definition inv5 :: "string list \<Rightarrow> 'f state \<Rightarrow> bool" where
  "inv5 dl s = (fed s \<le> length dl \<and> (work_closed s \<longrightarrow> fed s = length dl) \<and>
                (WDone \<in> set (workers s) \<longrightarrow> work_closed s \<and> work s = []))"

definition inv6 :: "'f state \<Rightarrow> bool" where
  "inv6 s = ((stdout s = [] \<or> mainpc s = MReturn) \<and>
             (mainpc s = MReturn \<longrightarrow> (\<exists>datapoint. stdout s = [datapoint])) \<and>
             (died s \<noteq> None \<longrightarrow> stdout s = [] \<and> (\<forall>p. died s \<noteq> Some (Panic p))))"

definition inv :: "myConfig \<Rightarrow> string list \<Rightarrow> 'f state \<Rightarrow> bool" where
  "inv cfg dl s = (inv1 s \<and> inv2 cfg s \<and> inv3 s \<and> inv4 s \<and> inv5 dl s \<and> inv6 s)"

text \<open>
  Invariants that tie the state to the execution that led to it: both channels
  are first-in first-out, the digest holds what was ingested, and each downloader
  has sent one sample for each key received but the one it holds.
\<close>

definition tinv :: "string list \<Rightarrow> 'f action list \<Rightarrow> 'f state \<Rightarrow> bool" where
  "tinv dl as s =
     (map snd (received as) @ work s = take (fed s) dl \<and>
      map snd (sent as) = ingested as @ latency s \<and>
      td s = ingested as \<and>
      (\<forall>w. count_list (map fst (received as)) w =
            count_list (map fst (sent as)) w + holding s w))"

text \<open>
  Where a downloader is, and what it did last: the actions of one downloader
  follow lines 226-238 in order.
\<close>

fun trail :: "'f lib \<Rightarrow> nat \<Rightarrow> 'f worker \<Rightarrow> 'f action list \<Rightarrow> bool" where
  "trail l w WRecv xs = (xs = [] \<or> (\<exists>p ok. xs = p @ [Copy w ok]))"
| "trail l w (WNow f) xs = (\<exists>p. xs = p @ [Recv w f])"
| "trail l w (WGet f start) xs = (\<exists>p. xs = p @ [Recv w f, Now w start])"
| "trail l w (WSince f start) xs = (\<exists>p. xs = p @ [Recv w f, Now w start, GetOk w])"
| "trail l w (WSend f v) xs =
     (\<exists>p start t. xs = p @ [Recv w f, Now w start, GetOk w, Since w t] \<and>
        v = Seconds l (t - start))"
| "trail l w (WCopy f) xs =
     (\<exists>p start t. xs = p @ [Recv w f, Now w start, GetOk w, Since w t,
        Send w (Seconds l (t - start))])"
| "trail l w WDone xs = (\<exists>p. xs = p @ [Finish w])"

definition winv :: "'f lib \<Rightarrow> 'f action list \<Rightarrow> 'f state \<Rightarrow> bool" where
  "winv l as s =
     ((\<forall>w. length (workers s) \<le> w \<longrightarrow> wacts w as = []) \<and>
      (died s = None \<longrightarrow> (\<forall>w < length (workers s). trail l w (workers s ! w) (wacts w as))))"

text \<open>The order of the actions of the main goroutine and the collector.\<close>

definition hinv :: "myConfig \<Rightarrow> 'f action list \<Rightarrow> 'f state \<Rightarrow> bool" where
  "hinv cfg as s =
     ((3 \<le> rank (mainpc s) \<longrightarrow>
         subseq [Wait] as \<and> (\<forall>w. int w < Goroutines cfg \<longrightarrow> subseq [Finish w, Wait] as)) \<and>
      (latency_closed s \<longrightarrow> subseq [Wait, CloseLatency] as) \<and>
      (latencyDone s \<longrightarrow> subseq [Wait, CloseLatency, CollectorDone] as) \<and>
      (6 \<le> rank (mainpc s) \<longrightarrow> subseq [Wait, CloseLatency, CollectorDone, Await] as) \<and>
      (\<forall>w < length (workers s). workers s ! w = WDone \<longrightarrow> Finish w \<in> set as))"

text \<open>
  The number of actions an execution still has before it: 8 for each key not yet
  fed, 7 for each key in \<open>work\<close>, what each downloader has left to do with the
  key it holds, 1 for each sample in \<open>latency\<close>, and what the feeder, the
  collector and the main goroutine have left; 1 more while the process lives.
\<close>

fun cost :: "'f worker \<Rightarrow> nat" where
  "cost WRecv = 1"
| "cost (WNow f) = 7"
| "cost (WGet f start) = 6"
| "cost (WSince f start) = 5"
| "cost (WSend f v) = 4"
| "cost (WCopy f) = 2"
| "cost WDone = 0"

fun main_cost :: "myConfig \<Rightarrow> 'f main_pc \<Rightarrow> nat" where
  "main_cost cfg MStart = 11 + 2 * nat (Goroutines cfg)"
| "main_cost cfg (MSpawn st i) = 10 + 2 * (nat (Goroutines cfg) - i)"
| "main_cost cfg pc = 11 - rank pc"

definition potential :: "myConfig \<Rightarrow> string list \<Rightarrow> 'f state \<Rightarrow> nat" where
  "potential cfg dl s =
     8 * (length dl - fed s) + 7 * length (work s) + sum_list (map cost (workers s)) +
     length (latency s) + (if work_closed s then 0 else 1) + (if latencyDone s then 0 else 1) +
     main_cost cfg (mainpc s) + (if died s = None then 1 else 0)"

section \<open>Concrete runs\<close>

text \<open>
  A library with integer samples (nanoseconds) and a nearest-rank quantile, two
  more object stores, and executions of small runs: one that completes with two
  downloaders and a failing body read, one in which the second download fails, and
  one without downloaders.
\<close>

definition demo_lib :: "int lib" where
  "demo_lib =
     \<lparr>Seconds = (\<lambda>d. d),
      TDQuantile = (\<lambda>xs q. if xs = [] then 0 else sort xs ! ((length xs - 1) * q div 100)),
      throughput = (\<lambda>bytes el. bytes),
      json_ok = (\<lambda>dp. True)\<rparr>"

definition two_cfg :: myConfig where
  "two_cfg = demo_cfg\<lparr>DownloadSizeBytes := 2048\<rparr>"

definition run_a :: "int action list" where
  "run_a = [MainStart 10, Spawn, Spawn, SpawnEnd, Feed ''b'', Feed ''a'', CloseWork,
     Recv 0 ''b'', Recv 1 ''a'', Now 0 20, Now 1 21, GetOk 0, GetOk 1, Since 0 30, Since 1 35,
     Send 0 10]"

definition run_b :: "int action list" where
  "run_b = [Copy 0 True]"

definition run_c :: "int action list" where
  "run_c = [Finish 0, Finish 1, Wait, Elapsed 40, Ingest 10, Ingest 14, CloseLatency,
     CollectorDone, Await]"

definition good_run :: "int action list" where
  "good_run = run_a @ Send 1 14 # run_b @ Copy 1 False # run_c"

definition good_tail :: "int action list" where
  "good_tail = [Quantile 95 10, Quantile 99 10, Marshal, Println]"

definition bad_run :: "int action list" where
  "bad_run = [MainStart 10, Spawn, Spawn, SpawnEnd, Feed ''b'', Feed ''a'',
     Recv 0 ''b'', Now 0 20, GetOk 0, Since 0 30, Send 0 10, Copy 0 True,
     Recv 1 ''a'', Now 1 40, GetErr 1]"

definition zero_flags :: flags where
  "zero_flags = \<lparr>flag_count = 1, flag_instance = ''c5n.2xlarge'', flag_goroutines = 0,
                  flag_set = ''M001'', flag_download = 1\<rparr>"

definition zero_cfg :: myConfig where
  "zero_cfg = \<lparr>Count = 1, DownloadSizeBytes = 1048576, EC2Instance = ''c5n.2xlarge'',
                FileSetName = ''M001'', Goroutines = 0\<rparr>"

definition zero_run :: "int action list" where
  "zero_run = [MainStart 10, SpawnEnd, Wait, Elapsed 11, CloseLatency, CollectorDone]"

definition failing_env :: env where
  "failing_env = \<lparr>s3_config_ok = True,
                  s3_list = (\<lambda>p. MorePages [''a''] PageErr),
                  draw = (\<lambda>i. 0)\<rparr>"

definition empty_env :: env where
  "empty_env = \<lparr>s3_config_ok = True, s3_list = (\<lambda>p. LastPage []), draw = (\<lambda>i. 0)\<rparr>"

text \<open>
  The flags \<^verbatim>\<open>--set=M001 --download=1 --goroutines=9223372036854775808\<close> and the
  configuration \<^verbatim>\<open>parseFlags\<close> makes of them.
\<close>

definition big_flags :: flags where
  "big_flags = \<lparr>flag_count = 1, flag_instance = ''c5n.2xlarge'',
                 flag_goroutines = 9223372036854775808, flag_set = ''M001'', flag_download = 1\<rparr>"

definition big_cfg :: myConfig where
  "big_cfg = \<lparr>Count = 1, DownloadSizeBytes = 1048576, EC2Instance = ''c5n.2xlarge'',
               FileSetName = ''M001'', Goroutines = - 9223372036854775808\<rparr>"

section \<open>Properties of the work list builder\<close>

lemma pass_eq:
  "int (length files) < n \<Longrightarrow>
   pass fs n files =
     (if n \<le> int (length files + length fs)
      then Inl (files @ take (nat n - length files) fs)
      else Inr (files @ fs))"
proof (induction fs arbitrary: files)
  case Nil
  then show ?case by simp
next
  case (Cons f fs)
  show ?case
  proof (cases "n \<le> int (length files) + 1")
    case True
    with Cons.prems have "nat n - length files = 1" by linarith
    with True show ?thesis by simp
  next
    case False
    then have lt: "int (length (files @ [f])) < n" by simp
    from False have "nat n - length files = Suc (nat n - length (files @ [f]))"
      by simp
    with False Cons.IH [OF lt] show ?thesis by simp
  qed
qed

lemma cyc_length: "length (cyc L k) = k"
  by (simp add: cyc_def)

lemma cyc_nth: "i < k \<Longrightarrow> cyc L k ! i = L ! (i mod length L)"
  by (simp add: cyc_def)

lemma cyc_append:
  assumes "r \<le> length L"
  shows "cyc L (q * length L) @ take r L = cyc L (q * length L + r)"
proof (rule nth_equalityI)
  show "length (cyc L (q * length L) @ take r L) = length (cyc L (q * length L + r))"
    using assms by (simp add: cyc_length)
next
  fix i assume "i < length (cyc L (q * length L) @ take r L)"
  then have i: "i < q * length L + r" using assms by (simp add: cyc_length)
  show "(cyc L (q * length L) @ take r L) ! i = cyc L (q * length L + r) ! i"
  proof (cases "i < q * length L")
    case True
    then show ?thesis using i by (simp add: nth_append cyc_length cyc_nth)
  next
    case False
    then obtain d where d: "i = q * length L + d" "d < r"
      using i by (metis add_diff_inverse_nat nat_add_left_cancel_less)
    then have "d < length L" using assms by simp
    then have "i mod length L = d" using d by simp
    with d False i assms show ?thesis
      by (simp add: nth_append cyc_length cyc_nth)
  qed
qed

lemma cycle_eq:
  assumes "L \<noteq> []"
  shows "int (q * length L) < n \<Longrightarrow> cycle L n (cyc L (q * length L)) = Some (cyc L (nat n))"
proof (induction "nat n - q * length L" arbitrary: q rule: less_induct)
  case less
  let ?M = "length L"
  have M: "0 < ?M" using assms by simp
  have lt: "int (length (cyc L (q * ?M))) < n" using less.prems by (simp add: cyc_length)
  show ?case
  proof (cases "n \<le> int (q * ?M + ?M)")
    case True
    then have r: "nat n - q * ?M \<le> ?M" by linarith
    have "q * ?M + (nat n - q * ?M) = nat n" using less.prems by linarith
    with cyc_append [OF r, of q] have "cyc L (q * ?M) @ take (nat n - q * ?M) L = cyc L (nat n)"
      by simp
    with True lt show ?thesis
      by (subst cycle.simps) (simp add: pass_eq cyc_length)
  next
    case False
    have app: "cyc L (q * ?M) @ L = cyc L (Suc q * ?M)"
      using cyc_append [of ?M L q] by (simp add: add.commute)
    have S: "Suc q * ?M = q * ?M + ?M" by simp
    have F: "int (q * ?M) + int ?M < n" using False by simp
    have "nat n - Suc q * ?M < nat n - q * ?M" unfolding S using F M by linarith
    moreover have "int (Suc q * ?M) < n" unfolding S using F by linarith
    ultimately have "cycle L n (cyc L (Suc q * ?M)) = Some (cyc L (nat n))"
      by (rule less.hyps)
    with False lt app show ?thesis
      by (subst cycle.simps) (simp add: pass_eq cyc_length)
  qed
qed

lemma cycle_start: "L \<noteq> [] \<Longrightarrow> 0 < n \<Longrightarrow> cycle L n [] = Some (cyc L (nat n))"
  using cycle_eq [of L 0 n] by (simp add: cyc_def)

lemma swap_files_mset:
  "i < length files \<Longrightarrow> j < length files \<Longrightarrow> mset (swap_files files i j) = mset files"
  by (simp add: swap_files_def mset_swap)

lemma swap_files_length: "length (swap_files files i j) = length files"
  by (simp add: swap_files_def)

lemma shuffle_loop_mset:
  "i < length files \<Longrightarrow> mset (shuffle_loop d i files) = mset files"
proof (induction i arbitrary: files)
  case 0
  then show ?case by simp
next
  case (Suc i)
  have j: "d (Suc i) mod Suc (Suc i) < length files"
    using Suc.prems by (meson Suc_leI le_trans mod_less_divisor not_le zero_less_Suc less_le_trans)
  have "mset (shuffle_loop d i (swap_files files (Suc i) (d (Suc i) mod Suc (Suc i))))
        = mset (swap_files files (Suc i) (d (Suc i) mod Suc (Suc i)))"
    using Suc.prems by (intro Suc.IH) (simp add: swap_files_length)
  also have "\<dots> = mset files"
    using Suc.prems j by (rule swap_files_mset)
  finally show ?case by simp
qed

lemma Shuffle_mset: "mset (Shuffle d files) = mset files"
proof (cases files)
  case Nil
  then show ?thesis by (simp add: Shuffle_def)
next
  case (Cons a list)
  then show ?thesis by (simp add: Shuffle_def shuffle_loop_mset)
qed

lemma Shuffle_length: "length (Shuffle d files) = length files"
  using Shuffle_mset [of d files] by (metis size_mset)

lemma Shuffle_set: "set (Shuffle d files) = set files"
  using Shuffle_mset [of d files] by (metis set_mset_mset)

lemma cyc_full: "cyc L (q * length L) = concat (replicate q L)"
proof (induction q)
  case 0
  then show ?case by (simp add: cyc_def)
next
  case (Suc q)
  have "cyc L (Suc q * length L) = cyc L (q * length L) @ L"
    using cyc_append [of "length L" L q] by (simp add: add.commute)
  moreover have "replicate (Suc q) L = replicate q L @ [L]"
    by (simp add: replicate_append_same)
  ultimately show ?case using Suc by (simp del: replicate_Suc mult_Suc)
qed

lemma count_concat_replicate:
  "count_list (concat (replicate q L)) k = q * count_list L k"
  by (induction q) (simp_all add: )

lemma cyc_count:
  assumes "L \<noteq> []"
  shows "(n div length L) * count_list L k \<le> count_list (cyc L n) k"
proof -
  let ?M = "length L"
  have r: "n mod ?M \<le> ?M" using assms by (simp add: less_imp_le)
  have "cyc L n = cyc L ((n div ?M) * ?M + n mod ?M)" by simp
  also have "\<dots> = cyc L ((n div ?M) * ?M) @ take (n mod ?M) L"
    using cyc_append [OF r] by simp
  finally have "cyc L n = concat (replicate (n div ?M) L) @ take (n mod ?M) L"
    by (simp only: cyc_full)
  then show ?thesis by (simp add: count_concat_replicate)
qed

lemma cyc_count_member:
  assumes "k \<in> set L"
  shows "n div length L \<le> count_list (cyc L n) k"
proof -
  from assms have ne: "L \<noteq> []" by auto
  from assms have "0 < count_list L k" using count_list_0_iff [of L k] by auto
  then have "n div length L \<le> (n div length L) * count_list L k" by simp
  also note cyc_count [OF ne]
  finally show ?thesis .
qed

lemma go_quo_nonneg: "0 \<le> a \<Longrightarrow> 0 < b \<Longrightarrow> go_quo a b = a div b"
  by (cases "a = 0") (simp_all add: go_quo_def)

lemma go_quo_zero: "go_quo a 0 = 0"
  by (simp add: go_quo_def)

lemma fileSets_Size: "fileSets name = Some fs \<Longrightarrow> 1024 \<le> Size fs"
  by (auto simp: fileSets_def KiB_def MiB_def split: if_splits)

lemma buildDownloadList_returns:
  assumes "discovered e cfg = Inr keys" and "keys \<noteq> []"
    and "0 < go_quo (DownloadSizeBytes cfg) (fileSetSize (FileSetName cfg))"
  shows "buildDownloadList e cfg =
    Some (Inr (Inr (cyc (Shuffle (draw e) keys)
      (nat (go_quo (DownloadSizeBytes cfg) (fileSetSize (FileSetName cfg)))))))"
proof -
  let ?sh = "Shuffle (draw e) keys"
  have ne: "?sh \<noteq> []" using assms(2) Shuffle_length [of "draw e" keys] by auto
  have sz: "fileSetSize (FileSetName cfg) \<noteq> 0"
    using assms(3) by (auto simp: go_quo_zero)
  show ?thesis
    using assms(1,3) ne sz
    by (simp add: buildDownloadList_def listS3Files_def cycle_start Let_def)
qed

lemma buildDownloadList_Inr_length:
  assumes "buildDownloadList e cfg = Some (Inr (Inr files))"
  shows "int (length files) = go_quo (DownloadSizeBytes cfg) (fileSetSize (FileSetName cfg))"
proof -
  let ?n = "go_quo (DownloadSizeBytes cfg) (fileSetSize (FileSetName cfg))"
  from assms obtain keys where d: "discovered e cfg = Inr keys"
    by (cases "discovered e cfg") (auto simp: buildDownloadList_def listS3Files_def)
  from assms d have ne: "keys \<noteq> []"
    by (auto simp: buildDownloadList_def listS3Files_def Shuffle_def)
  from assms d have pos: "0 < ?n"
    by (auto simp: buildDownloadList_def listS3Files_def Let_def split: if_splits)
  from buildDownloadList_returns [OF d ne pos] assms
  have "files = cyc (Shuffle (draw e) keys) (nat ?n)" by simp
  with pos show ?thesis by (simp add: cyc_length)
qed

text \<open>
  Claim C1. For a configuration whose file set is in the table and whose download
  volume is an exact multiple of the object size, and a non-empty list of
  discovered keys: every work list that \<^verbatim>\<open>buildDownloadList\<close> returns has exactly
  \<open>DownloadSizeBytes / Size\<close> elements, and it does return one whenever the volume
  is positive. (With a volume of 0 the function ends the process at line 210 and
  returns nothing.)
\<close>

theorem buildDownloadList_length:
  assumes "discovered e cfg = Inr keys" and "keys \<noteq> []"
    and "fileSets (FileSetName cfg) = Some fs"
    and "go_rem (DownloadSizeBytes cfg) (Size fs) = 0"
  shows "(0 < DownloadSizeBytes cfg \<longrightarrow> (\<exists>files. buildDownloadList e cfg = Some (Inr (Inr files)))) \<and>
         (\<forall>files. buildDownloadList e cfg = Some (Inr (Inr files)) \<longrightarrow>
            int (length files) = go_quo (DownloadSizeBytes cfg) (Size fs))"
proof (intro conjI impI allI)
  have sz: "fileSetSize (FileSetName cfg) = Size fs" using assms(3) by (simp add: fileSetSize_def)
  have big: "1024 \<le> Size fs" using assms(3) by (rule fileSets_Size)
  {
    assume pos: "0 < DownloadSizeBytes cfg"
    have q: "go_quo (DownloadSizeBytes cfg) (Size fs) = DownloadSizeBytes cfg div Size fs"
      using pos big by (simp add: go_quo_nonneg)
    from assms(4) have "DownloadSizeBytes cfg = Size fs * (DownloadSizeBytes cfg div Size fs)"
      by (simp add: go_rem_def q)
    note eq = this
    have "0 < DownloadSizeBytes cfg div Size fs"
    proof (rule ccontr)
      assume "\<not> 0 < DownloadSizeBytes cfg div Size fs"
      then have "Size fs * (DownloadSizeBytes cfg div Size fs) \<le> 0"
        using big by (intro mult_nonneg_nonpos) simp_all
      with eq pos show False by simp
    qed
    with q sz have "0 < go_quo (DownloadSizeBytes cfg) (fileSetSize (FileSetName cfg))" by simp
    from buildDownloadList_returns [OF assms(1,2) this]
    show "\<exists>files. buildDownloadList e cfg = Some (Inr (Inr files))" by blast
  }
  fix files assume "buildDownloadList e cfg = Some (Inr (Inr files))"
  from buildDownloadList_Inr_length [OF this] sz
  show "int (length files) = go_quo (DownloadSizeBytes cfg) (Size fs)" by simp
qed

lemma demo_discovered: "discovered demo_env demo_cfg = Inr [''a'', ''b'']"
  by (simp add: discovered_def demo_env_def)

lemma demo_fileSet: "fileSets (FileSetName demo_cfg) = Some \<lparr>Size = 1024\<rparr>"
  by (simp add: demo_cfg_def fileSets_def KiB_def)

theorem buildDownloadList_length_witness:
  "discovered demo_env demo_cfg = Inr [''a'', ''b''] \<and>
   fileSets (FileSetName demo_cfg) = Some \<lparr>Size = 1024\<rparr> \<and>
   go_rem (DownloadSizeBytes demo_cfg) 1024 = 0 \<and>
   (\<exists>files. buildDownloadList demo_env demo_cfg = Some (Inr (Inr files)) \<and> length files = 5)"
proof -
  have ne: "[''a'', ''b''] \<noteq> ([] :: string list)" by simp
  have r: "go_rem (DownloadSizeBytes demo_cfg) (Size \<lparr>Size = 1024\<rparr>) = 0"
    by (simp add: go_rem_def go_quo_def demo_cfg_def)
  have q: "go_quo (DownloadSizeBytes demo_cfg) (Size \<lparr>Size = 1024\<rparr>) = 5"
    by (simp add: go_quo_def demo_cfg_def)
  have p: "0 < DownloadSizeBytes demo_cfg" by (simp add: demo_cfg_def)
  from buildDownloadList_length [OF demo_discovered ne demo_fileSet r] p q
  have "\<exists>files. buildDownloadList demo_env demo_cfg = Some (Inr (Inr files)) \<and> int (length files) = 5"
    by auto
  with demo_discovered demo_fileSet r show ?thesis by simp
qed

text \<open>
  Claim C2. For a discovered key list of size \<open>M \<ge> 1\<close> and \<open>n\<close> files needed,
  \<^verbatim>\<open>listS3Files\<close> shuffles the list once (the result is a permutation of the keys),
  and \<^verbatim>\<open>buildDownloadList\<close> returns the list of length \<open>n\<close> whose element at position
  \<open>i\<close> is the shuffled list's element at \<open>i mod M\<close>; hence every discovered key
  occurs at least \<open>n div M\<close> times in it.
\<close>

theorem buildDownloadList_cycles:
  assumes "discovered e cfg = Inr keys" and "keys \<noteq> []"
    and "n = go_quo (DownloadSizeBytes cfg) (fileSetSize (FileSetName cfg))" and "0 < n"
  shows "\<exists>out. buildDownloadList e cfg = Some (Inr (Inr out)) \<and>
           listS3Files e cfg = Inr (Shuffle (draw e) keys, None) \<and>
           mset (Shuffle (draw e) keys) = mset keys \<and>
           length out = nat n \<and>
           (\<forall>i < nat n. out ! i = Shuffle (draw e) keys ! (i mod length keys)) \<and>
           (\<forall>k \<in> set keys. nat n div length keys \<le> count_list out k)"
proof -
  let ?sh = "Shuffle (draw e) keys"
  let ?out = "cyc ?sh (nat n)"
  have len: "length ?sh = length keys" by (rule Shuffle_length)
  have "buildDownloadList e cfg = Some (Inr (Inr ?out))"
    using buildDownloadList_returns [OF assms(1,2)] assms(3,4) by simp
  moreover have "listS3Files e cfg = Inr (?sh, None)"
    using assms(1) by (simp add: listS3Files_def)
  moreover have "mset ?sh = mset keys" by (rule Shuffle_mset)
  moreover have "length ?out = nat n" by (rule cyc_length)
  moreover have "\<forall>i < nat n. ?out ! i = ?sh ! (i mod length keys)"
    by (simp add: cyc_nth len)
  moreover have "\<forall>k \<in> set keys. nat n div length keys \<le> count_list ?out k"
    using cyc_count_member [of _ ?sh "nat n"] by (simp add: Shuffle_set len)
  ultimately show ?thesis by blast
qed

theorem buildDownloadList_cycles_witness:
  "discovered demo_env demo_cfg = Inr [''a'', ''b''] \<and>
   go_quo (DownloadSizeBytes demo_cfg) (fileSetSize (FileSetName demo_cfg)) = 5 \<and>
   Shuffle (draw demo_env) [''a'', ''b''] = [''b'', ''a''] \<and>
   buildDownloadList demo_env demo_cfg = Some (Inr (Inr [''b'', ''a'', ''b'', ''a'', ''b''])) \<and>
   2 \<le> count_list [''b'', ''a'', ''b'', ''a'', ''b''] ''a''"
proof -
  have ne: "[''a'', ''b''] \<noteq> ([] :: string list)" by simp
  have q: "5 = go_quo (DownloadSizeBytes demo_cfg) (fileSetSize (FileSetName demo_cfg))"
    by (simp add: go_quo_def demo_cfg_def fileSetSize_def fileSets_def KiB_def)
  have sh: "Shuffle (draw demo_env) [''a'', ''b''] = [''b'', ''a'']"
    by (simp add: Shuffle_def swap_files_def demo_env_def)
  from buildDownloadList_cycles [OF demo_discovered ne q] obtain out where
    b: "buildDownloadList demo_env demo_cfg = Some (Inr (Inr out))" and
    l: "length out = nat 5" and
    n: "\<forall>i < nat 5. out ! i = Shuffle (draw demo_env) [''a'', ''b''] ! (i mod length [''a'', ''b''])"
    by auto
  have "out = [''b'', ''a'', ''b'', ''a'', ''b'']"
  proof (rule nth_equalityI)
    show "length out = length [''b'', ''a'', ''b'', ''a'', ''b'']" using l by simp
  next
    fix i assume "i < length out"
    then have "i < 5" using l by simp
    then have i: "i = 0 \<or> i = 1 \<or> i = 2 \<or> i = 3 \<or> i = 4" by arith
    have e: "\<And>j. j < 5 \<Longrightarrow> out ! j = [''b'', ''a''] ! (j mod 2)" using n sh by (simp add: numeral_2_eq_2)
    from i e [of 0] e [of 1] e [of 2] e [of 3] e [of 4]
    show "out ! i = [''b'', ''a'', ''b'', ''a'', ''b''] ! i" by (elim disjE) simp_all
  qed
  with b demo_discovered q [symmetric] sh show ?thesis by simp
qed

section \<open>The actions, case by case\<close>

lemma act_cases [consumes 1, case_names Feed CloseWork Recv Finish Now GetOk GetErr Since
    Send SendPanic Copy Ingest CollectorDone MainStart Spawn SpawnEnd Wait Elapsed
    CloseLatency Await Q50 Q95 Q99 MarshalOk MarshalErr Println]:
  assumes "act l cfg dl a s = Some s'"
  obtains
    (Feed) f where "a = Feed f" "fed s < length dl" "f = dl ! fed s"
      "int (length (work s)) < chanSize cfg" "s' = s\<lparr>work := work s @ [f], fed := Suc (fed s)\<rparr>"
  | (CloseWork) "a = CloseWork" "fed s = length dl" "\<not> work_closed s"
      "s' = s\<lparr>work_closed := True\<rparr>"
  | (Recv) w f rest where "a = Recv w f" "w < length (workers s)" "workers s ! w = WRecv"
      "work s = f # rest" "s' = s\<lparr>work := rest, workers := (workers s)[w := WNow f]\<rparr>"
  | (Finish) w where "a = Finish w" "w < length (workers s)" "workers s ! w = WRecv"
      "work s = []" "work_closed s" "s' = s\<lparr>wg := wg s - 1, workers := (workers s)[w := WDone]\<rparr>"
  | (Now) w t f where "a = Now w t" "w < length (workers s)" "workers s ! w = WNow f"
      "clock s \<le> t" "s' = s\<lparr>clock := t, workers := (workers s)[w := WGet f t]\<rparr>"
  | (GetOk) w f start where "a = GetOk w" "w < length (workers s)" "workers s ! w = WGet f start"
      "s' = s\<lparr>workers := (workers s)[w := WSince f start]\<rparr>"
  | (GetErr) w f start where "a = GetErr w" "w < length (workers s)" "workers s ! w = WGet f start"
      "s' = s\<lparr>died := Some (Fatal (ErrorDownloading f))\<rparr>"
  | (Since) w t f start where "a = Since w t" "w < length (workers s)"
      "workers s ! w = WSince f start" "clock s \<le> t"
      "s' = s\<lparr>clock := t, workers := (workers s)[w := WSend f (Seconds l (t - start))]\<rparr>"
  | (Send) w v f where "a = Send w v" "w < length (workers s)" "workers s ! w = WSend f v"
      "\<not> latency_closed s" "int (length (latency s)) < chanSize cfg"
      "s' = s\<lparr>latency := latency s @ [v], workers := (workers s)[w := WCopy f]\<rparr>"
  | (SendPanic) w v f where "a = Send w v" "w < length (workers s)" "workers s ! w = WSend f v"
      "latency_closed s" "s' = s\<lparr>died := Some (Panic SendOnClosedChan)\<rparr>"
  | (Copy) w ok f where "a = Copy w ok" "w < length (workers s)" "workers s ! w = WCopy f"
      "s' = s\<lparr>workers := (workers s)[w := WRecv]\<rparr>"
  | (Ingest) v rest where "a = Ingest v" "\<not> latencyDone s" "latency s = v # rest"
      "s' = s\<lparr>latency := rest, td := td s @ [v]\<rparr>"
  | (CollectorDone) "a = CollectorDone" "\<not> latencyDone s" "latency s = []" "latency_closed s"
      "s' = s\<lparr>latencyDone := True\<rparr>"
  | (MainStart) t where "a = MainStart t" "mainpc s = MStart" "clock s \<le> t"
      "s' = s\<lparr>mainpc := MSpawn t 0, clock := t\<rparr>"
  | (Spawn) st i where "a = Spawn" "mainpc s = MSpawn st i" "int i < Goroutines cfg"
      "s' = s\<lparr>wg := wg s + 1, workers := workers s @ [WRecv], mainpc := MSpawn st (Suc i)\<rparr>"
  | (SpawnEnd) st i where "a = SpawnEnd" "mainpc s = MSpawn st i" "\<not> int i < Goroutines cfg"
      "s' = s\<lparr>mainpc := MWait st\<rparr>"
  | (Wait) st where "a = Wait" "mainpc s = MWait st" "wg s = 0" "s' = s\<lparr>mainpc := MElapsed st\<rparr>"
  | (Elapsed) t st where "a = Elapsed t" "mainpc s = MElapsed st" "clock s \<le> t"
      "s' = s\<lparr>mainpc := MClose (Seconds l (t - st)), clock := t\<rparr>"
  | (CloseLatency) el where "a = CloseLatency" "mainpc s = MClose el"
      "s' = s\<lparr>latency_closed := True, mainpc := MAwait el\<rparr>"
  | (Await) el where "a = Await" "mainpc s = MAwait el" "latencyDone s"
      "s' = s\<lparr>mainpc := MQ50 el\<rparr>"
  | (Q50) el where "a = Quantile 50 (TDQuantile l (td s) 50)" "mainpc s = MQ50 el"
      "s' = s\<lparr>mainpc := MQ95 el (TDQuantile l (td s) 50)\<rparr>"
  | (Q95) el p50 where "a = Quantile 95 (TDQuantile l (td s) 95)" "mainpc s = MQ95 el p50"
      "s' = s\<lparr>mainpc := MQ99 el p50 (TDQuantile l (td s) 95)\<rparr>"
  | (Q99) el p50 p95 dp where "a = Quantile 99 (TDQuantile l (td s) 99)"
      "mainpc s = MQ99 el p50 p95" "s' = s\<lparr>mainpc := MMarshal dp\<rparr>"
  | (MarshalOk) dp where "a = Marshal" "mainpc s = MMarshal dp" "json_ok l dp"
      "s' = s\<lparr>mainpc := MPrint dp\<rparr>"
  | (MarshalErr) dp where "a = Marshal" "mainpc s = MMarshal dp" "\<not> json_ok l dp"
      "s' = s\<lparr>died := Some (Fatal ErrorEncodingDatapoint)\<rparr>"
  | (Println) dp where "a = Println" "mainpc s = MPrint dp"
      "s' = s\<lparr>stdout := stdout s @ [dp], mainpc := MReturn\<rparr>"
proof (cases a)
  case (Feed f)
  with assms show ?thesis by (intro that(1) [of f]) (auto split: if_splits)
next
  case CloseWork
  with assms show ?thesis by (intro that(2)) (auto split: if_splits)
next
  case (Recv w f)
  with assms show ?thesis
    by (cases "work s") (auto simp: set_worker_def split: if_splits worker.splits intro: that(3))
next
  case (Finish w)
  with assms show ?thesis
    by (auto simp: set_worker_def split: if_splits worker.splits intro: that(4))
next
  case (Now w t)
  with assms show ?thesis
    by (auto simp: set_worker_def split: if_splits worker.splits intro: that(5))
next
  case (GetOk w)
  with assms show ?thesis
    by (auto simp: set_worker_def split: if_splits worker.splits intro: that(6))
next
  case (GetErr w)
  with assms show ?thesis
    by (auto simp: set_worker_def split: if_splits worker.splits intro: that(7))
next
  case (Since w t)
  with assms show ?thesis
    by (auto simp: set_worker_def split: if_splits worker.splits intro: that(8))
next
  case (Send w v)
  with assms show ?thesis
    by (auto simp: set_worker_def split: if_splits worker.splits intro: that(9) that(10))
next
  case (Copy w ok)
  with assms show ?thesis
    by (auto simp: set_worker_def split: if_splits worker.splits intro: that(11))
next
  case (Ingest v)
  with assms show ?thesis
    by (cases "latency s") (auto split: if_splits intro: that(12))
next
  case CollectorDone
  with assms show ?thesis by (auto split: if_splits intro: that(13))
next
  case (MainStart t)
  with assms show ?thesis by (auto split: if_splits main_pc.splits intro: that(14))
next
  case Spawn
  with assms show ?thesis by (auto split: if_splits main_pc.splits intro: that(15))
next
  case SpawnEnd
  with assms show ?thesis by (auto split: if_splits main_pc.splits intro: that(16))
next
  case Wait
  with assms show ?thesis by (auto split: if_splits main_pc.splits intro: that(17))
next
  case (Elapsed t)
  with assms show ?thesis by (auto split: if_splits main_pc.splits intro: that(18))
next
  case CloseLatency
  with assms show ?thesis by (auto split: if_splits main_pc.splits intro: that(19))
next
  case Await
  with assms show ?thesis by (auto split: if_splits main_pc.splits intro: that(20))
next
  case (Quantile q v)
  with assms show ?thesis
    by (auto split: if_splits main_pc.splits intro: that(21) that(22) that(23))
next
  case Marshal
  with assms show ?thesis by (auto split: if_splits main_pc.splits intro: that(24) that(25))
next
  case Println
  with assms show ?thesis by (auto split: if_splits main_pc.splits intro: that(26))
qed

lemma fire_act: "fire l cfg dl a s = Some s' \<Longrightarrow> died s = None \<and> act l cfg dl a s = Some s'"
  by (auto simp: fire_def split: if_splits)

lemma exec_append:
  "exec l cfg dl (as @ bs) s =
     (case exec l cfg dl as s of None \<Rightarrow> None | Some s' \<Rightarrow> exec l cfg dl bs s')"
  by (induction as arbitrary: s) (simp_all split: option.splits)

lemma exec_snoc:
  "exec l cfg dl (as @ [a]) s0 = Some s' \<longleftrightarrow>
     (\<exists>s. exec l cfg dl as s0 = Some s \<and> fire l cfg dl a s = Some s')"
  by (simp add: exec_append split: option.splits)

lemma exec_mid:
  assumes "exec l cfg dl (pre @ a # post) s0 = Some s"
  obtains s1 s2 where "exec l cfg dl pre s0 = Some s1" and "fire l cfg dl a s1 = Some s2"
    and "exec l cfg dl post s2 = Some s"
  using assms by (auto simp: exec_append split: option.splits)

lemma exec_dead:
  assumes "died s \<noteq> None" and "exec l cfg dl bs s = Some s'"
  shows "bs = []"
  using assms by (cases bs) (simp_all add: fire_def)

section \<open>The invariants hold in every execution\<close>

lemma sum_alive_update:
  "w < length ws \<Longrightarrow>
   sum_list (map alive (ws[w := x])) = sum_list (map alive ws) - alive (ws ! w) + alive x"
proof (induction ws arbitrary: w)
  case Nil
  then show ?case by simp
next
  case (Cons y ys)
  then show ?case by (cases w) simp_all
qed

lemma alive_nonneg: "0 \<le> sum_list (map alive ws)"
  by (induction ws) (simp_all add: alive_def)

lemma sum_alive_zero:
  "sum_list (map alive ws) = 0 \<Longrightarrow> x \<in> set ws \<Longrightarrow> x = WDone"
proof (induction ws)
  case Nil
  then show ?case by simp
next
  case (Cons y ys)
  have "0 \<le> alive y" by (simp add: alive_def)
  with Cons.prems(1) alive_nonneg [of ys]
  have "alive y = 0" and "sum_list (map alive ys) = 0" by simp_all
  with Cons show ?case by (auto simp: alive_def split: if_splits)
qed

lemma all_done:
  assumes "inv1 s" and "inv3 s" and "3 \<le> rank (mainpc s)" and "w < length (workers s)"
  shows "workers s ! w = WDone"
proof -
  from assms(1-3) have "sum_list (map alive (workers s)) = 0"
    by (simp add: inv1_def inv3_def)
  then show ?thesis using assms(4) sum_alive_zero nth_mem by blast
qed

lemma alive_exists:
  assumes "sum_list (map alive ws) \<noteq> 0"
  shows "\<exists>w < length ws. ws ! w \<noteq> WDone"
proof (rule ccontr)
  assume "\<not> (\<exists>w < length ws. ws ! w \<noteq> WDone)"
  then have "\<forall>x \<in> set ws. x = WDone" by (auto simp: in_set_conv_nth)
  then have "sum_list (map alive ws) = 0" by (induction ws) (simp_all add: alive_def)
  with assms show False by simp
qed

lemma inv1_act:
  assumes "inv1 s" and "act l cfg dl a s = Some s'"
  shows "inv1 s'"
  using assms(2,1)
  by (cases rule: act_cases) (simp_all add: inv1_def sum_alive_update alive_def)

lemma inv2_act:
  assumes "inv2 cfg s" and "act l cfg dl a s = Some s'"
  shows "inv2 cfg s'"
  using assms(2,1)
  by (cases rule: act_cases) (auto simp: inv2_def)

lemma rank_act:
  assumes "act l cfg dl a s = Some s'"
  shows "rank (mainpc s) \<le> rank (mainpc s')"
  using assms
  by (cases rule: act_cases) simp_all

lemma rank_exec:
  "exec l cfg dl bs s = Some s' \<Longrightarrow> rank (mainpc s) \<le> rank (mainpc s')"
proof (induction bs arbitrary: s)
  case Nil
  then show ?case by simp
next
  case (Cons a bs)
  then obtain s1 where f: "fire l cfg dl a s = Some s1" and e: "exec l cfg dl bs s1 = Some s'"
    by (auto split: option.splits)
  from rank_act [of l cfg dl a s s1] fire_act [OF f] Cons.IH [OF e] show ?case by simp
qed

lemma inv3_act:
  assumes "inv1 s" and "inv3 s" and "act l cfg dl a s = Some s'"
  shows "inv3 s'"
  using assms(3)
proof (cases rule: act_cases)
  case (Finish w)
  with all_done [OF assms(1,2), of w] assms(2) show ?thesis by (auto simp: inv3_def)
next
  case (Spawn st i)
  with assms(2) show ?thesis by (simp add: inv3_def)
qed (use assms(2) in \<open>simp_all add: inv3_def\<close>)

lemma inv4_act:
  assumes "inv1 s" and "inv3 s" and "inv4 s" and "act l cfg dl a s = Some s'"
  shows "inv4 s'"
  using assms(4)
proof (cases rule: act_cases)
  case (Send w v f)
  have "\<not> latencyDone s"
  proof
    assume "latencyDone s"
    with assms(3) have "5 \<le> rank (mainpc s)" by (simp add: inv4_def)
    then have "3 \<le> rank (mainpc s)" by simp
    from all_done [OF assms(1,2) this Send(2)] Send(3) show False by simp
  qed
  with Send assms(3) show ?thesis by (simp add: inv4_def)
qed (use assms(3) in \<open>auto simp: inv4_def\<close>)

lemma inv5_act:
  assumes "inv5 dl s" and "act l cfg dl a s = Some s'"
  shows "inv5 dl s'"
  using assms(2)
proof (cases rule: act_cases)
  case (Recv w f rest)
  have "WDone \<notin> set (workers s)" using assms(1) Recv(4) by (auto simp: inv5_def)
  moreover have "set ((workers s)[w := WNow f]) \<subseteq> insert (WNow f) (set (workers s))"
    by (rule set_update_subset_insert)
  ultimately have "WDone \<notin> set ((workers s)[w := WNow f])" by auto
  with Recv assms(1) show ?thesis by (simp add: inv5_def)
next
  case (Feed f)
  have "WDone \<notin> set (workers s)" using assms(1) Feed(2) by (auto simp: inv5_def)
  with Feed assms(1) show ?thesis by (auto simp: inv5_def)
qed (use assms(1) in \<open>auto simp: inv5_def dest!: set_update_subset_insert [THEN subsetD]\<close>)

lemma inv6_act:
  assumes "inv1 s" and "inv3 s" and "inv4 s" and "inv6 s" and "died s = None"
    and "act l cfg dl a s = Some s'"
  shows "inv6 s'"
  using assms(6)
proof (cases rule: act_cases)
  case (GetErr w f start)
  have "\<not> 3 \<le> rank (mainpc s)"
    using all_done [OF assms(1,2) _ GetErr(2)] GetErr(3) by auto
  then have "mainpc s \<noteq> MReturn" by auto
  with GetErr assms(4) show ?thesis by (simp add: inv6_def)
next
  case (SendPanic w v f)
  from SendPanic(4) assms(3) have "5 \<le> rank (mainpc s)" by (simp add: inv4_def)
  then have "3 \<le> rank (mainpc s)" by simp
  from all_done [OF assms(1,2) this SendPanic(2)] SendPanic(3) show ?thesis by simp
qed (use assms(4,5) in \<open>auto simp: inv6_def\<close>)

lemma inv_init: "inv cfg dl init"
  by (simp add: inv_def inv1_def inv2_def inv3_def inv4_def inv5_def inv6_def init_def)

lemma inv_fire:
  assumes "inv cfg dl s" and "fire l cfg dl a s = Some s'"
  shows "inv cfg dl s'"
proof -
  from assms(2) have d: "died s = None" and a: "act l cfg dl a s = Some s'"
    by (auto simp: fire_def split: if_splits)
  from assms(1) have i: "inv1 s" "inv2 cfg s" "inv3 s" "inv4 s" "inv5 dl s" "inv6 s"
    by (simp_all add: inv_def)
  show ?thesis
    unfolding inv_def
    using inv1_act [OF i(1) a] inv2_act [OF i(2) a] inv3_act [OF i(1,3) a]
      inv4_act [OF i(1,3,4) a] inv5_act [OF i(5) a] inv6_act [OF i(1,3,4,6) d a]
    by simp
qed

lemma inv_exec_from:
  "inv cfg dl s \<Longrightarrow> exec l cfg dl as s = Some s' \<Longrightarrow> inv cfg dl s'"
proof (induction as arbitrary: s)
  case Nil
  then show ?case by simp
next
  case (Cons a as)
  then show ?case by (auto split: option.splits dest: inv_fire)
qed

lemma inv_exec: "exec l cfg dl as init = Some s \<Longrightarrow> inv cfg dl s"
  using inv_init inv_exec_from by blast

lemma finished_state:
  assumes "inv cfg dl s" and "5 \<le> rank (mainpc s)"
  shows "\<forall>w < length (workers s). workers s ! w = WDone"
    and "int (length (workers s)) = max 0 (Goroutines cfg)"
proof -
  from assms(1) have i: "inv1 s" "inv2 cfg s" "inv3 s" by (simp_all add: inv_def)
  from assms(2) have r: "3 \<le> rank (mainpc s)" "2 \<le> rank (mainpc s)" by simp_all
  show "\<forall>w < length (workers s). workers s ! w = WDone"
    using all_done [OF i(1,3) r(1)] by blast
  show "int (length (workers s)) = max 0 (Goroutines cfg)"
    using i(2) r(2) by (simp add: inv2_def)
qed

section \<open>The channels are first-in first-out\<close>

lemma received_snoc: "received (as @ [a]) = received as @ recv_of a"
  by (simp add: received_def)

lemma sent_snoc: "sent (as @ [a]) = sent as @ send_of a"
  by (simp add: sent_def)

lemma ingested_snoc: "ingested (as @ [a]) = ingested as @ ingest_of a"
  by (simp add: ingested_def)

lemma count_list_snoc: "count_list (xs @ [x]) y = count_list xs y + (if x = y then 1 else 0)"
  by (induction xs) simp_all

lemma count_list_length:
  assumes "\<And>w. count_list xs w = count_list ys w"
  shows "length xs = length ys"
proof -
  have "mset xs = mset ys"
    by (rule multiset_eqI) (simp add: assms count_mset)
  then show ?thesis by (metis size_mset)
qed

lemma holding_update:
  "w < length (workers s) \<Longrightarrow>
   holding (s\<lparr>workers := (workers s)[w := x]\<rparr>) w' = (if w' = w then inflight x else holding s w')"
  by (simp add: holding_def)

lemma tinv_act:
  assumes "inv cfg dl s" and "tinv dl as s" and "act l cfg dl a s = Some s'"
  shows "tinv dl (as @ [a]) s'"
  using assms(3)
proof (cases rule: act_cases)
  case (Feed f)
  with assms(2) show ?thesis
    by (simp add: tinv_def received_snoc sent_snoc ingested_snoc take_Suc_conv_app_nth holding_def)
next
  case (SendPanic w v f)
  from assms(1) have i: "inv1 s" "inv3 s" "inv4 s" by (simp_all add: inv_def)
  from SendPanic(4) i(3) have "5 \<le> rank (mainpc s)" by (simp add: inv4_def)
  then have "3 \<le> rank (mainpc s)" by simp
  from all_done [OF i(1,2) this SendPanic(2)] SendPanic(3) show ?thesis by simp
next
  case (Spawn st i)
  with assms(2) show ?thesis
    by (auto simp: tinv_def received_snoc sent_snoc ingested_snoc holding_def nth_append)
next
  case (Recv w f rest)
  with assms(2) show ?thesis
    by (simp add: tinv_def received_snoc sent_snoc ingested_snoc holding_update count_list_snoc)
       (simp add: holding_def)
next
  case (Send w v f)
  with assms(2) show ?thesis
    by (simp add: tinv_def received_snoc sent_snoc ingested_snoc holding_update count_list_snoc)
       (auto simp add: holding_def)
qed (use assms(2) in \<open>auto simp: tinv_def received_snoc sent_snoc ingested_snoc
       holding_def nth_list_update\<close>)

lemma tinv_init: "tinv dl [] init"
  by (simp add: tinv_def received_def sent_def ingested_def init_def holding_def)

lemma tinv_exec: "exec l cfg dl as init = Some s \<Longrightarrow> tinv dl as s"
proof (induction as arbitrary: s rule: rev_induct)
  case Nil
  then show ?case by (simp add: tinv_init)
next
  case (snoc a as)
  from snoc.prems obtain s1 where
    e: "exec l cfg dl as init = Some s1" and f: "fire l cfg dl a s1 = Some s"
    by (auto simp: exec_snoc)
  from inv_exec [OF e] snoc.IH [OF e] fire_act [OF f] show ?case
    by (auto intro: tinv_act)
qed

lemma quiet_after:
  assumes "inv cfg dl s" and "6 \<le> rank (mainpc s)" and "exec l cfg dl bs s = Some s'"
  shows "ingested bs = [] \<and> sent bs = []"
  using assms
proof (induction bs arbitrary: s)
  case Nil
  then show ?case by (simp add: ingested_def sent_def)
next
  case (Cons a bs)
  then obtain s1 where f: "fire l cfg dl a s = Some s1" and e: "exec l cfg dl bs s1 = Some s'"
    by (auto split: option.splits)
  note i = Cons.prems(1)
  from Cons.prems(2) have r: "5 \<le> rank (mainpc s)" by simp
  from i Cons.prems(2) have ld: "latencyDone s" by (simp add: inv_def inv4_def)
  have r1: "6 \<le> rank (mainpc s1)"
    using rank_act [of l cfg dl a s s1] fire_act [OF f] Cons.prems(2) by simp
  from Cons.IH [OF inv_fire [OF i f] r1 e] have rest: "ingested bs = []" "sent bs = []" by simp_all
  from fire_act [OF f] have "act l cfg dl a s = Some s1" by simp
  then have "ingest_of a = [] \<and> send_of a = []"
  proof (cases rule: act_cases)
    case (Ingest v rest)
    with ld show ?thesis by simp
  next
    case (Send w v f)
    with finished_state(1) [OF i r] show ?thesis by simp
  next
    case (SendPanic w v f)
    with finished_state(1) [OF i r] show ?thesis by simp
  qed simp_all
  with rest show ?case by (simp add: ingested_def sent_def)
qed

section \<open>The order of the actions\<close>

lemma subseq_snoc: "subseq xs ys \<Longrightarrow> subseq (xs @ [a]) (ys @ [a])"
  by (rule list_emb_append_mono) simp_all

lemma hinv_act:
  assumes "inv cfg dl s" and "hinv cfg as s" and "act l cfg dl a s = Some s'"
  shows "hinv cfg (as @ [a]) s'"
proof -
  from assms(2) have
    h1: "3 \<le> rank (mainpc s) \<Longrightarrow>
           subseq [Wait] (as @ [a]) \<and>
           (\<forall>w. int w < Goroutines cfg \<longrightarrow> subseq [Finish w, Wait] (as @ [a]))" and
    h2: "latency_closed s \<Longrightarrow> subseq [Wait, CloseLatency] (as @ [a])" and
    h3: "latencyDone s \<Longrightarrow> subseq [Wait, CloseLatency, CollectorDone] (as @ [a])" and
    h4: "6 \<le> rank (mainpc s) \<Longrightarrow> subseq [Wait, CloseLatency, CollectorDone, Await] (as @ [a])" and
    h5: "\<And>w. w < length (workers s) \<Longrightarrow> workers s ! w = WDone \<Longrightarrow> Finish w \<in> set (as @ [a])"
    by (auto simp: hinv_def intro: subseq_rev_drop_many)
  from assms(3) show ?thesis
  proof (cases rule: act_cases)
    case (Wait st)
    have a: "subseq [Wait] (as @ [Wait])" by (simp add: subseq_singleton_left)
    from assms(1) have i: "inv1 s" "inv2 cfg s" by (simp_all add: inv_def)
    have b: "subseq [Finish w, Wait] (as @ [Wait])" if "int w < Goroutines cfg" for w
    proof -
      from i(2) Wait(2) that have len: "w < length (workers s)" by (simp add: inv2_def)
      from i(1) Wait(3) have "sum_list (map alive (workers s)) = 0" by (simp add: inv1_def)
      then have "workers s ! w = WDone" using len sum_alive_zero nth_mem by blast
      with assms(2) len have "Finish w \<in> set as" by (simp add: hinv_def)
      then have "subseq [Finish w] as" by (simp add: subseq_singleton_left)
      from subseq_snoc [OF this, of Wait] show ?thesis by simp
    qed
    from Wait a b h2 h3 h4 h5 show ?thesis by (auto simp: hinv_def)
  next
    case (CloseLatency el)
    with assms(2) have "subseq [Wait] as" by (simp add: hinv_def)
    from subseq_snoc [OF this, of CloseLatency] CloseLatency h1 h3 h4 h5
    show ?thesis by (auto simp: hinv_def)
  next
    case CollectorDone
    with assms(2) have "subseq [Wait, CloseLatency] as" by (simp add: hinv_def)
    from subseq_snoc [OF this, of CollectorDone] CollectorDone h1 h2 h4 h5
    show ?thesis by (auto simp: hinv_def)
  next
    case (Await el)
    with assms(2) have "subseq [Wait, CloseLatency, CollectorDone] as" by (simp add: hinv_def)
    from subseq_snoc [OF this, of Await] Await h1 h2 h3 h5
    show ?thesis by (auto simp: hinv_def)
  next
    case (Spawn st i)
    with h1 h2 h3 h4 h5 show ?thesis by (auto simp: hinv_def nth_append)
  qed (use h1 h2 h3 h4 h5 in \<open>auto simp: hinv_def nth_list_update\<close>)
qed

lemma hinv_exec: "exec l cfg dl as init = Some s \<Longrightarrow> hinv cfg as s"
proof (induction as arbitrary: s rule: rev_induct)
  case Nil
  then show ?case by (auto simp: hinv_def init_def)
next
  case (snoc a as)
  from snoc.prems obtain s1 where
    e: "exec l cfg dl as init = Some s1" and f: "fire l cfg dl a s1 = Some s"
    by (auto simp: exec_snoc)
  from inv_exec [OF e] snoc.IH [OF e] fire_act [OF f] show ?case
    by (auto intro: hinv_act)
qed

section \<open>The actions of one downloader\<close>

lemma wacts_snoc:
  "wacts w (as @ [a]) = (if actor a = Some w then wacts w as @ [a] else wacts w as)"
  by (simp add: wacts_def)

lemma winv_act:
  assumes "winv l as s" and "died s = None" and "act l cfg dl a s = Some s'"
  shows "winv l (as @ [a]) s'"
  using assms(3)
proof (cases rule: act_cases)
  case (Spawn st i)
  with assms(1,2) show ?thesis
    by (auto simp: winv_def wacts_snoc nth_append)
next
  case (Since w t f start)
  from assms(1,2) Since(2) have "trail l w (workers s ! w) (wacts w as)"
    by (simp add: winv_def)
  with Since(3) obtain p where p: "wacts w as = p @ [Recv w f, Now w start, GetOk w]"
    by auto
  have "trail l w (WSend f (Seconds l (t - start))) (wacts w as @ [Since w t])"
    using p by auto
  with Since assms(1,2) show ?thesis
    by (auto simp: winv_def wacts_snoc nth_list_update)
qed (use assms(1,2) in \<open>auto simp: winv_def wacts_snoc nth_list_update\<close>)

lemma winv_exec: "exec l cfg dl as init = Some s \<Longrightarrow> winv l as s"
proof (induction as arbitrary: s rule: rev_induct)
  case Nil
  then show ?case by (auto simp: winv_def init_def wacts_def)
next
  case (snoc a as)
  from snoc.prems obtain s1 where
    e: "exec l cfg dl as init = Some s1" and f: "fire l cfg dl a s1 = Some s"
    by (auto simp: exec_snoc)
  from snoc.IH [OF e] fire_act [OF f] show ?case
    by (auto intro: winv_act)
qed

lemma other_act:
  assumes "act l cfg dl a s = Some s'" and "actor a \<noteq> Some w" and "w < length (workers s)"
  shows "w < length (workers s') \<and> workers s' ! w = workers s ! w"
  using assms(1)
  by (cases rule: act_cases) (use assms(2,3) in \<open>auto simp: nth_append nth_list_update\<close>)

lemma next_after_send:
  assumes "exec l cfg dl post s = Some s'" and "w < length (workers s)"
    and "workers s ! w = WCopy f"
  shows "wacts w post = [] \<or> (\<exists>ok rest. wacts w post = Copy w ok # rest)"
  using assms
proof (induction post arbitrary: s)
  case Nil
  then show ?case by (simp add: wacts_def)
next
  case (Cons a post)
  then obtain s1 where f: "fire l cfg dl a s = Some s1" and e: "exec l cfg dl post s1 = Some s'"
    by (auto split: option.splits)
  note a = fire_act [OF f, THEN conjunct2]
  show ?case
  proof (cases "actor a = Some w")
    case True
    from a have "\<exists>ok. a = Copy w ok"
      by (cases rule: act_cases) (use True Cons.prems(3) in auto)
    with True show ?thesis by (auto simp: wacts_def)
  next
    case False
    from other_act [OF a False Cons.prems(2)] Cons.prems(3)
    have "w < length (workers s1)" "workers s1 ! w = WCopy f" by simp_all
    from Cons.IH [OF e this] False show ?thesis by (simp add: wacts_def)
  qed
qed

lemma fire_heal: "fire l cfg dl (heal a) s = fire l cfg dl a s"
  by (cases a) (simp_all add: fire_def)

lemma exec_heal: "exec l cfg dl (map heal as) s = exec l cfg dl as s"
  by (induction as arbitrary: s) (simp_all add: fire_heal split: option.splits)

lemma death_cause:
  assumes "exec l cfg dl as init = Some s" and "died s = Some x"
  shows "as \<noteq> [] \<and>
         ((\<exists>w f. last as = GetErr w \<and> x = Fatal (ErrorDownloading f)) \<or>
          (last as = Marshal \<and> x = Fatal ErrorEncodingDatapoint))"
proof (cases as rule: rev_cases)
  case Nil
  with assms show ?thesis by (auto simp: init_def)
next
  case (snoc pre a)
  with assms(1) obtain s1 where
    e: "exec l cfg dl pre init = Some s1" and f: "fire l cfg dl a s1 = Some s"
    by (auto simp: exec_snoc)
  note d = fire_act [OF f, THEN conjunct1]
  from inv_exec [OF assms(1)] assms(2) have np: "\<forall>p. x \<noteq> Panic p"
    by (auto simp: inv_def inv6_def)
  from fire_act [OF f, THEN conjunct2] have
    "(\<exists>w f. a = GetErr w \<and> x = Fatal (ErrorDownloading f)) \<or>
     (a = Marshal \<and> x = Fatal ErrorEncodingDatapoint)"
    by (cases rule: act_cases) (use d assms(2) np in auto)
  with snoc show ?thesis by simp
qed

section \<open>Every execution ends, and ends dead or with the return\<close>

lemma sum_cost_update:
  "w < length ws \<Longrightarrow>
   sum_list (map cost (ws[w := x])) + cost (ws ! w) = sum_list (map cost ws) + cost x"
proof (induction ws arbitrary: w)
  case Nil
  then show ?case by simp
next
  case (Cons y ys)
  then show ?case by (cases w) (simp_all add: add.assoc add.left_commute)
qed

lemma potential_act:
  assumes "died s = None" and "act l cfg dl a s = Some s'"
  shows "Suc (potential cfg dl s') = potential cfg dl s"
  using assms(2)
proof (cases rule: act_cases)
  case (Recv w f rest)
  with assms(1) sum_cost_update [of w "workers s" "WNow f"] show ?thesis
    by (simp add: potential_def)
next
  case (Finish w)
  with assms(1) sum_cost_update [of w "workers s" WDone] show ?thesis
    by (simp add: potential_def)
next
  case (Now w t f)
  with assms(1) sum_cost_update [of w "workers s" "WGet f t"] show ?thesis
    by (simp add: potential_def)
next
  case (GetOk w f start)
  with assms(1) sum_cost_update [of w "workers s" "WSince f start"] show ?thesis
    by (simp add: potential_def)
next
  case (Since w t f start)
  with assms(1) sum_cost_update [of w "workers s" "WSend f (Seconds l (t - start))"] show ?thesis
    by (simp add: potential_def)
next
  case (Send w v f)
  with assms(1) sum_cost_update [of w "workers s" "WCopy f"] show ?thesis
    by (simp add: potential_def)
next
  case (Copy w ok f)
  with assms(1) sum_cost_update [of w "workers s" WRecv] show ?thesis
    by (simp add: potential_def)
next
  case (Spawn st i)
  then have "nat (Goroutines cfg) - i = Suc (nat (Goroutines cfg) - Suc i)" by linarith
  with Spawn assms(1) show ?thesis by (simp add: potential_def)
next
  case (Feed f)
  then have "length dl - fed s = Suc (length dl - Suc (fed s))" by linarith
  with Feed assms(1) show ?thesis by (simp add: potential_def)
qed (use assms(1) in \<open>simp_all add: potential_def\<close>)

lemma potential_exec:
  "exec l cfg dl as s = Some s' \<Longrightarrow> length as + potential cfg dl s' = potential cfg dl s"
proof (induction as arbitrary: s)
  case Nil
  then show ?case by simp
next
  case (Cons a as)
  then obtain s1 where f: "fire l cfg dl a s = Some s1" and e: "exec l cfg dl as s1 = Some s'"
    by (auto split: option.splits)
  from fire_act [OF f] have "Suc (potential cfg dl s1) = potential cfg dl s"
    by (auto intro: potential_act)
  with Cons.IH [OF e] show ?case by simp
qed

lemma exec_bounded:
  fixes s :: "'f state"
  assumes "exec l cfg dl as init = Some s"
  shows "length as \<le> 8 * length dl + 2 * nat (Goroutines cfg) + 14"
proof -
  have "length as \<le> length as + potential cfg dl s" by simp
  also have "\<dots> = potential cfg dl (init :: 'f state)" by (rule potential_exec [OF assms])
  also have "\<dots> = 8 * length dl + 2 * nat (Goroutines cfg) + 14"
    by (simp add: potential_def init_def)
  finally show ?thesis .
qed

lemma progress:
  assumes "inv cfg dl s" and "died s = None" and "mainpc s \<noteq> MReturn"
  shows "\<exists>a s'. fire l cfg dl a s = Some s' \<and> (\<forall>w. a \<noteq> GetErr w)"
proof -
  from assms(1) have i: "inv1 s" "inv2 cfg s" "inv3 s" "inv4 s" "inv5 dl s" "inv6 s"
    by (simp_all add: inv_def)
  have en: "\<exists>a s'. fire l cfg dl a s = Some s' \<and> (\<forall>w. a \<noteq> GetErr w)"
    if "act l cfg dl a s = Some s'" and "\<forall>w. a \<noteq> GetErr w" for a s'
    using that assms(2) by (auto simp: fire_def)
  show ?thesis
  proof (cases "mainpc s")
    case MStart
    then show ?thesis by (intro en [of "MainStart (clock s)"]) simp_all
  next
    case (MSpawn st i)
    show ?thesis
    proof (cases "int i < Goroutines cfg")
      case True
      with MSpawn show ?thesis by (intro en [of Spawn]) simp_all
    next
      case False
      with MSpawn show ?thesis by (intro en [of SpawnEnd]) simp_all
    qed
  next
    case (MWait st)
    show ?thesis
    proof (cases "wg s = 0")
      case True
      with MWait show ?thesis by (intro en [of Wait]) simp_all
    next
      case False
      with i(1) obtain w where w: "w < length (workers s)" "workers s ! w \<noteq> WDone"
        using alive_exists [of "workers s"] by (auto simp: inv1_def)
      from w(1) i(2) MWait have "1 \<le> Goroutines cfg" by (auto simp: inv2_def)
      then have cs: "1 \<le> chanSize cfg" by (simp add: chanSize_def)
      from i(4) MWait have nc: "\<not> latency_closed s" "\<not> latencyDone s"
        by (auto simp: inv4_def)
      show ?thesis
      proof (cases "workers s ! w")
        case WRecv
        show ?thesis
        proof (cases "work s")
          case (Cons f rest)
          with WRecv w show ?thesis by (intro en [of "Recv w f"]) simp_all
        next
          case Nil
          show ?thesis
          proof (cases "work_closed s")
            case True
            with Nil WRecv w show ?thesis by (intro en [of "Finish w"]) simp_all
          next
            case False
            show ?thesis
            proof (cases "fed s < length dl")
              case True
              with Nil cs show ?thesis by (intro en [of "Feed (dl ! fed s)"]) simp_all
            next
              case nf: False
              with i(5) have "fed s = length dl" by (simp add: inv5_def)
              with False show ?thesis by (intro en [of CloseWork]) simp_all
            qed
          qed
        qed
      next
        case (WNow f)
        with w show ?thesis by (intro en [of "Now w (clock s)"]) simp_all
      next
        case (WGet f start)
        with w show ?thesis by (intro en [of "GetOk w"]) simp_all
      next
        case (WSince f start)
        with w show ?thesis by (intro en [of "Since w (clock s)"]) simp_all
      next
        case (WSend f v)
        show ?thesis
        proof (cases "int (length (latency s)) < chanSize cfg")
          case True
          with WSend w nc show ?thesis by (intro en [of "Send w v"]) simp_all
        next
          case False
          with cs obtain v' rest where "latency s = v' # rest" by (cases "latency s") auto
          with nc show ?thesis by (intro en [of "Ingest v'"]) simp_all
        qed
      next
        case (WCopy f)
        with w show ?thesis by (intro en [of "Copy w True"]) simp_all
      next
        case WDone
        with w show ?thesis by simp
      qed
    qed
  next
    case (MElapsed st)
    then show ?thesis by (intro en [of "Elapsed (clock s)"]) simp_all
  next
    case (MClose el)
    then show ?thesis by (intro en [of CloseLatency]) simp_all
  next
    case (MAwait el)
    show ?thesis
    proof (cases "latencyDone s")
      case True
      with MAwait show ?thesis by (intro en [of Await]) simp_all
    next
      case False
      from i(4) MAwait have lc: "latency_closed s" by (simp add: inv4_def)
      show ?thesis
      proof (cases "latency s")
        case Nil
        with False lc show ?thesis by (intro en [of CollectorDone]) simp_all
      next
        case (Cons v rest)
        with False show ?thesis by (intro en [of "Ingest v"]) simp_all
      qed
    qed
  next
    case (MQ50 el)
    then show ?thesis by (intro en [of "Quantile 50 (TDQuantile l (td s) 50)"]) simp_all
  next
    case (MQ95 el p50)
    then show ?thesis by (intro en [of "Quantile 95 (TDQuantile l (td s) 95)"]) simp_all
  next
    case (MQ99 el p50 p95)
    then show ?thesis by (intro en [of "Quantile 99 (TDQuantile l (td s) 99)"]) simp_all
  next
    case (MMarshal dp)
    show ?thesis
    proof (cases "json_ok l dp")
      case True
      with MMarshal show ?thesis by (intro en [of Marshal "s\<lparr>mainpc := MPrint dp\<rparr>"]) simp_all
    next
      case False
      with MMarshal show ?thesis
        by (intro en [of Marshal "s\<lparr>died := Some (Fatal ErrorEncodingDatapoint)\<rparr>"]) simp_all
    qed
  next
    case (MPrint dp)
    then show ?thesis by (intro en [of Println]) simp_all
  next
    case MReturn
    with assms(3) show ?thesis by simp
  qed
qed

lemma run_completes:
  assumes "exec l cfg dl as init = Some s" and "\<forall>a. fire l cfg dl a s = None"
  shows "died s \<noteq> None \<or> (mainpc s = MReturn \<and> (\<exists>datapoint. stdout s = [datapoint]))"
proof (cases "died s = None")
  case True
  note i = inv_exec [OF assms(1)]
  have "mainpc s = MReturn"
  proof (rule ccontr)
    assume "mainpc s \<noteq> MReturn"
    from progress [OF i True this, of l] assms(2) show False by auto
  qed
  with i show ?thesis by (simp add: inv_def inv6_def)
next
  case False
  then show ?thesis by simp
qed

section \<open>The concrete runs, evaluated\<close>

lemma two_setup: "run_setup demo_env two_cfg = Some (Inr [''b'', ''a''])"
  by code_simp

lemma good_run_state:
  "exec demo_lib two_cfg [''b'', ''a''] good_run init =
     Some \<lparr>clock = 40, fed = 2, work = [], work_closed = True, latency = [],
       latency_closed = True, latencyDone = True, td = [10, 14],
       workers = [WDone, WDone], wg = 0, mainpc = MQ50 30, died = None, stdout = []\<rparr>"
  by code_simp

lemma full_run_state:
  "exec demo_lib two_cfg [''b'', ''a''] (good_run @ Quantile 50 10 # good_tail) init =
     Some \<lparr>clock = 40, fed = 2, work = [], work_closed = True, latency = [],
       latency_closed = True, latencyDone = True, td = [10, 14],
       workers = [WDone, WDone], wg = 0, mainpc = MReturn, died = None,
       stdout = [\<lparr>dp_EC2Instance = ''c5n.2xlarge'', FileSizeBytes = 1024,
         FileSizeLabel = ''K001'', dp_Goroutines = 2, TotalSizeBytes = 2048, ElapsedSecs = 30,
         P50Latency = 10, P95Latency = 10, P99Latency = 10, ThroughputMiBs = 2048\<rparr>]\<rparr>"
  by code_simp

lemma bad_run_state:
  "exec demo_lib two_cfg [''b'', ''a''] bad_run init =
     Some \<lparr>clock = 40, fed = 2, work = [], work_closed = False, latency = [10],
       latency_closed = False, latencyDone = False, td = [],
       workers = [WRecv, WGet ''a'' 40], wg = 2, mainpc = MWait 10,
       died = Some (Fatal (ErrorDownloading ''a'')), stdout = []\<rparr>"
  by code_simp

section \<open>The claims about a run\<close>

text \<open>
  Claim C3, for at least one downloader. In every execution of a run with
  \<open>Goroutines \<ge> 1\<close> in which the collector has found \<open>latency\<close> closed
  (\<open>latencyDone\<close>): the keys received by the downloaders, in order, are exactly
  the work list, so each work item went to exactly one downloader; each downloader
  sent as many samples as it received keys; and the collector ingested exactly
  those samples, as many as the work list is long.
\<close>

theorem collector_ingests_all:
  assumes "exec l cfg dl as init = Some s" and "1 \<le> Goroutines cfg" and "latencyDone s"
  shows "map snd (received as) = dl \<and>
         (\<forall>w. count_list (map fst (received as)) w = count_list (map fst (sent as)) w) \<and>
         ingested as = map snd (sent as) \<and>
         td s = ingested as \<and>
         length (ingested as) = length dl"
proof -
  note i = inv_exec [OF assms(1)]
  note t = tinv_exec [OF assms(1)]
  from i assms(3) have r: "5 \<le> rank (mainpc s)" by (simp add: inv_def inv4_def)
  from finished_state [OF i r] assms(2) have
    dn: "\<forall>w < length (workers s). workers s ! w = WDone" and ne: "workers s \<noteq> []"
    by auto
  then have "WDone \<in> set (workers s)"
    by (metis length_greater_0_conv nth_mem)
  with i have w: "work s = []" "fed s = length dl" by (auto simp: inv_def inv5_def)
  from i assms(3) have la: "latency s = []" by (simp add: inv_def inv4_def)
  from dn have h: "\<And>w. holding s w = 0" by (simp add: holding_def)
  from t w have 1: "map snd (received as) = dl" by (simp add: tinv_def)
  from t h have 2: "\<forall>w. count_list (map fst (received as)) w = count_list (map fst (sent as)) w"
    by (simp add: tinv_def)
  from t la have 3: "ingested as = map snd (sent as)" and 4: "td s = ingested as"
    by (simp_all add: tinv_def)
  from 2 have "length (map fst (received as)) = length (map fst (sent as))"
    by (intro count_list_length) simp
  then have "length (sent as) = length (received as)" by simp
  also have "\<dots> = length dl" using 1 by (metis length_map)
  finally have "length (ingested as) = length dl" using 3 by simp
  with 1 2 3 4 show ?thesis by simp
qed

theorem collector_ingests_all_witness:
  "map_option latencyDone (exec demo_lib two_cfg [''b'', ''a''] good_run init) = Some True \<and>
   1 \<le> Goroutines two_cfg \<and>
   map snd (received good_run) = [''b'', ''a''] \<and>
   ingested good_run = [10, 14] \<and>
   length (ingested good_run) = length [''b'', ''a'']"
proof -
  have g: "1 \<le> Goroutines two_cfg" by (simp add: two_cfg_def demo_cfg_def)
  have i: "ingested good_run = [10, 14]"
    by (simp add: ingested_def good_run_def run_a_def run_b_def run_c_def)
  have d: "latencyDone \<lparr>clock = 40, fed = 2, work = [], work_closed = True, latency = [],
       latency_closed = True, latencyDone = True, td = [10, 14],
       workers = [WDone, WDone], wg = 0, mainpc = MQ50 30, died = None,
       stdout = ([] :: int Datapoint list)\<rparr>" by simp
  note c = collector_ingests_all [OF good_run_state g d]
  from c have 1: "map snd (received good_run) = [''b'', ''a'']" by (rule conjunct1)
  from c have 2: "length (ingested good_run) = length [''b'', ''a'']" by blast
  from 1 2 i g show ?thesis by (simp add: good_run_state)
qed

text \<open>
  Claim C3 as stated, for every worker count, fails for 0 downloaders, which
  \<^verbatim>\<open>parseFlags\<close> accepts: \<^verbatim>\<open>wg.Wait()\<close> returns at once, \<open>latency\<close> is closed and
  the collector finishes with no sample, while the work list has one key.
\<close>

theorem no_workers_no_samples:
  "parseFlags zero_flags = Inr zero_cfg \<and>
   run_setup demo_env zero_cfg = Some (Inr [''b'']) \<and>
   map_option latencyDone (exec demo_lib zero_cfg [''b''] zero_run init) = Some True \<and>
   map_option td (exec demo_lib zero_cfg [''b''] zero_run init) = Some [] \<and>
   ingested zero_run = [] \<and>
   length (ingested zero_run) \<noteq> length [''b'']"
proof -
  have "parseFlags zero_flags = Inr zero_cfg" by code_simp
  moreover have "run_setup demo_env zero_cfg = Some (Inr [''b''])" by code_simp
  moreover have "exec demo_lib zero_cfg [''b''] zero_run init =
     Some \<lparr>clock = 11, fed = 0, work = [], work_closed = False, latency = [],
       latency_closed = True, latencyDone = True, td = [], workers = [],
       wg = 0, mainpc = MAwait 1, died = None, stdout = []\<rparr>" by code_simp
  moreover have "ingested zero_run = []" by (simp add: ingested_def zero_run_def)
  ultimately show ?thesis by simp
qed

text \<open>
  Claim C4. At every call of \<^verbatim>\<open>td.Quantile\<close> in an execution, every sample
  that is ever sent has already been ingested, nothing is ingested afterwards,
  and the call comes after \<^verbatim>\<open>wg.Wait()\<close> has returned (itself after every
  downloader finished), \<open>latency\<close> was closed, the collector finished, and
  \<open>latencyDone\<close> was received, in this order.
\<close>

theorem quantiles_after_ingestion:
  assumes "exec l cfg dl (pre @ Quantile q v # post) init = Some s"
  shows "ingested pre = map snd (sent (pre @ Quantile q v # post)) \<and>
         ingested post = [] \<and>
         subseq [Wait, CloseLatency, CollectorDone, Await] pre \<and>
         (\<forall>w. int w < Goroutines cfg \<longrightarrow> subseq [Finish w, Wait] pre)"
proof -
  from assms obtain s1 s2 where
    e1: "exec l cfg dl pre init = Some s1" and
    f: "fire l cfg dl (Quantile q v) s1 = Some s2" and
    e2: "exec l cfg dl post s2 = Some s"
    by (rule exec_mid)
  note i1 = inv_exec [OF e1]
  from fire_act [OF f] have r1: "6 \<le> rank (mainpc s1)"
    by (auto split: if_splits main_pc.splits)
  then have r2: "6 \<le> rank (mainpc s2)"
    using rank_act [of l cfg dl "Quantile q v" s1 s2] fire_act [OF f] by simp
  from quiet_after [OF inv_fire [OF i1 f] r2 e2] have
    q: "ingested post = []" "sent post = []" by simp_all
  from i1 r1 have "latency s1 = []" by (simp add: inv_def inv4_def)
  with tinv_exec [OF e1] have "ingested pre = map snd (sent pre)" by (simp add: tinv_def)
  moreover have "sent (pre @ Quantile q v # post) = sent pre"
    using q(2) by (simp add: sent_def)
  ultimately have 1: "ingested pre = map snd (sent (pre @ Quantile q v # post))" by simp
  from hinv_exec [OF e1] r1 have 3: "subseq [Wait, CloseLatency, CollectorDone, Await] pre"
    by (simp add: hinv_def)
  from hinv_exec [OF e1] r1 have
    4: "\<forall>w. int w < Goroutines cfg \<longrightarrow> subseq [Finish w, Wait] pre"
    by (simp add: hinv_def)
  from 1 q(1) 3 4 show ?thesis by simp
qed

theorem quantiles_after_ingestion_witness:
  "map_option mainpc (exec demo_lib two_cfg [''b'', ''a''] (good_run @ Quantile 50 10 # good_tail) init)
     = Some MReturn \<and>
   ingested good_run = [10, 14] \<and>
   map snd (sent (good_run @ Quantile 50 10 # good_tail)) = [10, 14] \<and>
   ingested good_tail = []"
proof -
  have i: "ingested good_run = [10, 14]"
    by (simp add: ingested_def good_run_def run_a_def run_b_def run_c_def)
  from quantiles_after_ingestion [OF full_run_state] full_run_state i show ?thesis by simp
qed

text \<open>
  Claim C5. If a \<^verbatim>\<open>GetObject\<close> call fails in an execution of a run, it is the
  last action: the process has exited with status 1, nothing has been printed,
  and no action, so no printing either, is possible afterwards, whatever happened
  before.
\<close>

theorem fetch_failure_aborts:
  assumes "run_setup e cfg = Some (Inr dl)" and "exec l cfg dl as init = Some s"
    and "GetErr w \<in> set as"
  shows "\<exists>pre f. as = pre @ [GetErr w] \<and>
           died s = Some (Fatal (ErrorDownloading f)) \<and>
           exit_status (Fatal (ErrorDownloading f)) = 1 \<and>
           stdout s = [] \<and>
           (\<forall>a. fire l cfg dl a s = None) \<and>
           run_ends e l cfg (Died (Fatal (ErrorDownloading f)) [])"
proof -
  from assms(3) obtain pre post where as: "as = pre @ GetErr w # post"
    by (auto dest: split_list)
  with assms(2) obtain s1 s2 where
    e1: "exec l cfg dl pre init = Some s1" and
    f: "fire l cfg dl (GetErr w) s1 = Some s2" and
    e2: "exec l cfg dl post s2 = Some s"
    by (auto elim: exec_mid)
  from fire_act [OF f] obtain f' where d2: "died s2 = Some (Fatal (ErrorDownloading f'))"
    by (auto split: option.splits worker.splits if_splits)
  with e2 have post: "post = []" by (auto dest: exec_dead [rotated])
  with e2 have s: "s = s2" by simp
  from inv_exec [OF assms(2)] d2 s have out: "stdout s = []" by (simp add: inv_def inv6_def)
  have dead: "\<forall>a. fire l cfg dl a s = None" using d2 s by (simp add: fire_def)
  have "run_ends e l cfg (Died (Fatal (ErrorDownloading f')) (stdout s))"
    using assms(1,2) d2 s by (intro run_ends.later_dies) simp_all
  with as post d2 s out dead show ?thesis by auto
qed

theorem fetch_failure_aborts_witness:
  "run_setup demo_env two_cfg = Some (Inr [''b'', ''a'']) \<and>
   GetErr 1 \<in> set bad_run \<and> Copy 0 True \<in> set bad_run \<and>
   map_option died (exec demo_lib two_cfg [''b'', ''a''] bad_run init) =
     Some (Some (Fatal (ErrorDownloading ''a''))) \<and>
   map_option stdout (exec demo_lib two_cfg [''b'', ''a''] bad_run init) = Some [] \<and>
   run_ends demo_env demo_lib two_cfg (Died (Fatal (ErrorDownloading ''a'')) [])"
proof -
  have m: "GetErr 1 \<in> set bad_run" "Copy 0 True \<in> set bad_run" by (simp_all add: bad_run_def)
  from fetch_failure_aborts [OF two_setup bad_run_state m(1)] two_setup bad_run_state m
  show ?thesis by auto
qed

text \<open>
  Claim C9. The sample a downloader sends is \<open>Seconds (t - start)\<close>, where \<open>start\<close>
  is the clock read just before the \<^verbatim>\<open>GetObject\<close> call for the key received and
  \<open>t\<close> the clock read just after the call returned its response; the next thing
  the downloader does after the send is \<^verbatim>\<open>io.Copy(io.Discard, resp.Body)\<close>, which
  only ever follows the send, reads the body to its end unless a read fails,
  and leaves nothing of it in the state.
\<close>

theorem sample_before_body:
  assumes "exec l cfg dl (pre @ a # post) init = Some s"
  shows "(\<forall>w v. a = Send w v \<longrightarrow>
            (\<exists>p f start t. wacts w pre = p @ [Recv w f, Now w start, GetOk w, Since w t] \<and>
               v = Seconds l (t - start)) \<and>
            (wacts w post = [] \<or> (\<exists>ok rest. wacts w post = Copy w ok # rest))) \<and>
         (\<forall>w ok. a = Copy w ok \<longrightarrow>
            (\<exists>p f start t. wacts w pre = p @ [Recv w f, Now w start, GetOk w, Since w t,
               Send w (Seconds l (t - start))]) \<and>
            (\<exists>s1. exec l cfg dl pre init = Some s1 \<and>
               fire l cfg dl a s1 = Some (s1\<lparr>workers := (workers s1)[w := WRecv]\<rparr>)))"
proof -
  from assms obtain s1 s2 where
    e1: "exec l cfg dl pre init = Some s1" and
    f: "fire l cfg dl a s1 = Some s2" and
    e2: "exec l cfg dl post s2 = Some s"
    by (rule exec_mid)
  note d = fire_act [OF f, THEN conjunct1]
  note ac = fire_act [OF f, THEN conjunct2]
  note wi = winv_exec [OF e1]
  note i1 = inv_exec [OF e1]
  have 1: "(\<exists>p f start t. wacts w pre = p @ [Recv w f, Now w start, GetOk w, Since w t] \<and>
               v = Seconds l (t - start)) \<and>
            (wacts w post = [] \<or> (\<exists>ok rest. wacts w post = Copy w ok # rest))"
    if a: "a = Send w v" for w v
    using ac
  proof (cases rule: act_cases)
    case (Send w' v' f)
    with a have w: "w < length (workers s1)" "workers s1 ! w = WSend f v" by simp_all
    with wi d have tr: "trail l w (WSend f v) (wacts w pre)" by (auto simp: winv_def)
    from Send a have "w < length (workers s2)" "workers s2 ! w = WCopy f" by simp_all
    from next_after_send [OF e2 this] tr show ?thesis by auto
  next
    case (SendPanic w' v' f)
    from i1 have i: "inv1 s1" "inv3 s1" "inv4 s1" by (simp_all add: inv_def)
    from SendPanic(4) i(3) have "5 \<le> rank (mainpc s1)" by (simp add: inv4_def)
    then have "3 \<le> rank (mainpc s1)" by simp
    from all_done [OF i(1,2) this SendPanic(2)] SendPanic(3) show ?thesis by simp
  qed (use a in simp_all)
  have 2: "(\<exists>p f start t. wacts w pre = p @ [Recv w f, Now w start, GetOk w, Since w t,
               Send w (Seconds l (t - start))]) \<and>
            (\<exists>s1. exec l cfg dl pre init = Some s1 \<and>
               fire l cfg dl a s1 = Some (s1\<lparr>workers := (workers s1)[w := WRecv]\<rparr>))"
    if a: "a = Copy w ok" for w ok
    using ac
  proof (cases rule: act_cases)
    case (Copy w' ok' f)
    with a have w: "w < length (workers s1)" "workers s1 ! w = WCopy f" by simp_all
    with wi d have "trail l w (WCopy f) (wacts w pre)" by (auto simp: winv_def)
    moreover from Copy a f have "fire l cfg dl a s1 = Some (s1\<lparr>workers := (workers s1)[w := WRecv]\<rparr>)"
      by simp
    ultimately show ?thesis using e1 by auto
  qed (use a in simp_all)
  from 1 2 show ?thesis by blast
qed

theorem sample_before_body_witness:
  "map_option mainpc (exec demo_lib two_cfg [''b'', ''a'']
      (run_a @ Send 1 14 # run_b @ Copy 1 False # run_c) init) = Some (MQ50 30) \<and>
   wacts 1 run_a = [Recv 1 ''a'', Now 1 21, GetOk 1, Since 1 35] \<and>
   (14 :: int) = Seconds demo_lib (35 - 21) \<and>
   wacts 1 (run_b @ Copy 1 False # run_c) = [Copy 1 False, Finish 1] \<and>
   (\<exists>p f start t. wacts 1 run_a = p @ [Recv 1 f, Now 1 start, GetOk 1, Since 1 t] \<and>
      (14 :: int) = Seconds demo_lib (t - start))"
proof -
  have e: "exec demo_lib two_cfg [''b'', ''a'']
      (run_a @ Send 1 14 # run_b @ Copy 1 False # run_c) init =
     Some \<lparr>clock = 40, fed = 2, work = [], work_closed = True, latency = [],
       latency_closed = True, latencyDone = True, td = [10, 14],
       workers = [WDone, WDone], wg = 0, mainpc = MQ50 30, died = None, stdout = []\<rparr>"
    using good_run_state by (simp add: good_run_def)
  have a: "wacts 1 run_a = [Recv 1 ''a'', Now 1 21, GetOk 1, Since 1 35]"
    by (simp add: wacts_def run_a_def)
  have b: "wacts 1 (run_b @ Copy 1 False # run_c) = [Copy 1 False, Finish 1]"
    by (simp add: wacts_def run_b_def run_c_def)
  have c: "(14 :: int) = Seconds demo_lib (35 - 21)" by (simp add: demo_lib_def)
  have m: "map_option mainpc (exec demo_lib two_cfg [''b'', ''a'']
      (run_a @ Send 1 14 # run_b @ Copy 1 False # run_c) init) = Some (MQ50 30)"
    unfolding e by simp
  note x = sample_before_body [OF e, THEN conjunct1, THEN spec, THEN spec, THEN mp, OF refl,
    THEN conjunct1]
  from m a c b x show ?thesis by (intro conjI)
qed

text \<open>
  Claim C10. When the read of a body fails, the sample of that download has
  already been sent, the downloader is back at the head of its loop and the
  process lives; the execution is, action for action, also an execution in which
  the read succeeded, with the same final state, so that the same Datapoint is
  printed; when the process has died, the last action was a failing
  \<^verbatim>\<open>GetObject\<close> (or the failing \<^verbatim>\<open>json.Marshal\<close> of the main goroutine), never
  the read of a body; and when the execution has come to its end alive, which
  it does after a bounded number of actions, one Datapoint has been printed.
\<close>

theorem body_failure_ignored:
  assumes "exec l cfg dl (pre @ Copy w False # post) init = Some s"
  shows "(\<exists>p v. wacts w pre = p @ [Send w v]) \<and>
         (\<exists>s1. exec l cfg dl (pre @ [Copy w False]) init = Some s1 \<and> died s1 = None \<and>
            worker_at s1 w = Some WRecv) \<and>
         exec l cfg dl (pre @ Copy w True # post) init = Some s \<and>
         (\<forall>x. died s = Some x \<longrightarrow> post \<noteq> [] \<and>
            ((\<exists>w' f. last post = GetErr w' \<and> x = Fatal (ErrorDownloading f)) \<or>
             (last post = Marshal \<and> x = Fatal ErrorEncodingDatapoint))) \<and>
         (died s = None \<and> (\<forall>a. fire l cfg dl a s = None) \<longrightarrow>
            (\<exists>datapoint. stdout s = [datapoint]))"
proof -
  from assms obtain s0 s1 where
    e1: "exec l cfg dl pre init = Some s0" and
    f: "fire l cfg dl (Copy w False) s0 = Some s1" and
    e2: "exec l cfg dl post s1 = Some s"
    by (rule exec_mid)
  from fire_act [OF f] have d0: "died s0 = None" and a: "act l cfg dl (Copy w False) s0 = Some s1"
    by simp_all
  from a obtain f' where w: "w < length (workers s0)" "workers s0 ! w = WCopy f'"
    and s1: "s1 = s0\<lparr>workers := (workers s0)[w := WRecv]\<rparr>"
    by (cases rule: act_cases) auto
  from winv_exec [OF e1] d0 w have "trail l w (WCopy f') (wacts w pre)"
    by (auto simp: winv_def)
  then have 1: "\<exists>p v. wacts w pre = p @ [Send w v]"
    by (auto intro: exI [of _ "_ @ [Recv w f', Now w _, GetOk w, Since w _]"])
  have 2: "\<exists>s1. exec l cfg dl (pre @ [Copy w False]) init = Some s1 \<and> died s1 = None \<and>
            worker_at s1 w = Some WRecv"
    using e1 f s1 d0 w by (auto simp: exec_snoc)
  have "exec l cfg dl (map heal (pre @ Copy w False # post)) init = Some s"
    using assms by (simp only: exec_heal)
  moreover have "exec l cfg dl (map heal (pre @ Copy w True # post)) init =
      exec l cfg dl (pre @ Copy w True # post) init"
    by (simp only: exec_heal)
  ultimately have 3: "exec l cfg dl (pre @ Copy w True # post) init = Some s" by simp
  have 4: "post \<noteq> [] \<and>
      ((\<exists>w' f. last post = GetErr w' \<and> x = Fatal (ErrorDownloading f)) \<or>
       (last post = Marshal \<and> x = Fatal ErrorEncodingDatapoint))" if x: "died s = Some x" for x
  proof -
    have ne: "post \<noteq> []"
    proof
      assume "post = []"
      with death_cause [OF assms x] show False by simp
    qed
    with death_cause [OF assms x] show ?thesis by simp
  qed
  have 5: "\<exists>datapoint. stdout s = [datapoint]"
    if "died s = None \<and> (\<forall>a. fire l cfg dl a s = None)"
    using run_completes [OF assms] that by auto
  from 1 2 3 4 5 show ?thesis by blast
qed

theorem body_failure_ignored_witness:
  "map_option stdout (exec demo_lib two_cfg [''b'', ''a'']
      ((run_a @ Send 1 14 # run_b) @ Copy 1 False # (run_c @ Quantile 50 10 # good_tail)) init) =
     Some [\<lparr>dp_EC2Instance = ''c5n.2xlarge'', FileSizeBytes = 1024,
       FileSizeLabel = ''K001'', dp_Goroutines = 2, TotalSizeBytes = 2048, ElapsedSecs = 30,
       P50Latency = 10, P95Latency = 10, P99Latency = 10, ThroughputMiBs = 2048\<rparr>] \<and>
   map_option stdout (exec demo_lib two_cfg [''b'', ''a'']
      ((run_a @ Send 1 14 # run_b) @ Copy 1 True # (run_c @ Quantile 50 10 # good_tail)) init) =
     Some [\<lparr>dp_EC2Instance = ''c5n.2xlarge'', FileSizeBytes = 1024,
       FileSizeLabel = ''K001'', dp_Goroutines = 2, TotalSizeBytes = 2048, ElapsedSecs = 30,
       P50Latency = 10, P95Latency = 10, P99Latency = 10, ThroughputMiBs = 2048\<rparr>] \<and>
   wacts 1 (run_a @ Send 1 14 # run_b) =
     [Recv 1 ''a'', Now 1 21, GetOk 1, Since 1 35, Send 1 14]"
proof -
  have e: "exec demo_lib two_cfg [''b'', ''a'']
      ((run_a @ Send 1 14 # run_b) @ Copy 1 False # (run_c @ Quantile 50 10 # good_tail)) init =
     Some \<lparr>clock = 40, fed = 2, work = [], work_closed = True, latency = [],
       latency_closed = True, latencyDone = True, td = [10, 14],
       workers = [WDone, WDone], wg = 0, mainpc = MReturn, died = None,
       stdout = [\<lparr>dp_EC2Instance = ''c5n.2xlarge'', FileSizeBytes = 1024,
         FileSizeLabel = ''K001'', dp_Goroutines = 2, TotalSizeBytes = 2048, ElapsedSecs = 30,
         P50Latency = 10, P95Latency = 10, P99Latency = 10, ThroughputMiBs = 2048\<rparr>]\<rparr>"
    using full_run_state by (simp add: good_run_def)
  have w: "wacts 1 (run_a @ Send 1 14 # run_b) =
     [Recv 1 ''a'', Now 1 21, GetOk 1, Since 1 35, Send 1 14]"
    by (simp add: wacts_def run_a_def run_b_def)
  note x = body_failure_ignored [OF e, THEN conjunct2, THEN conjunct2, THEN conjunct1]
  show ?thesis unfolding e x w by simp
qed

section \<open>The claims about the listing\<close>

lemma list_pages_fails:
  "failing_page p = Some i \<Longrightarrow> list_pages p k files = Inl (Fatal (FailedToGetPage (k + i)))"
  by (induction p arbitrary: k files i) auto

lemma run_ends_setup_dies:
  assumes "run_setup e cfg = Some (Inl a)"
  shows "run_ends e l cfg r \<longleftrightarrow> r = Died a []"
  using assms by (auto simp: run_ends.simps)

text \<open>
  Claim C7. If the listing succeeds with no keys, \<^verbatim>\<open>buildDownloadList\<close> returns
  the error of line 205, which is not the failure of line 181, and the only way
  the run ends is the exit with status 1 at line 253: nothing is printed.
\<close>

theorem empty_listing_aborts:
  assumes "s3_config_ok e" and "discovered e cfg = Inr []"
  shows "listS3Files e cfg = Inr ([], None) \<and>
         buildDownloadList e cfg = Some (Inr (Inl NoS3FilesFound)) \<and>
         (\<forall>r. run_ends e l cfg r \<longleftrightarrow> r = Died (Fatal (ErrorBuildingFileList NoS3FilesFound)) []) \<and>
         exit_status (Fatal (ErrorBuildingFileList NoS3FilesFound)) = 1"
proof -
  from assms(2) have l: "listS3Files e cfg = Inr ([], None)"
    by (simp add: listS3Files_def Shuffle_def)
  then have b: "buildDownloadList e cfg = Some (Inr (Inl NoS3FilesFound))"
    by (simp add: buildDownloadList_def)
  with assms(1) have "run_setup e cfg = Some (Inl (Fatal (ErrorBuildingFileList NoS3FilesFound)))"
    by (simp add: run_setup_def)
  from run_ends_setup_dies [OF this, of l] l b show ?thesis by simp
qed

theorem empty_listing_aborts_witness:
  "s3_config_ok empty_env \<and> discovered empty_env demo_cfg = Inr [] \<and>
   buildDownloadList empty_env demo_cfg = Some (Inr (Inl NoS3FilesFound)) \<and>
   run_ends empty_env demo_lib demo_cfg (Died (Fatal (ErrorBuildingFileList NoS3FilesFound)) [])"
proof -
  have c: "s3_config_ok empty_env" by (simp add: empty_env_def)
  have d: "discovered empty_env demo_cfg = Inr []" by (simp add: empty_env_def discovered_def)
  from empty_listing_aborts [OF c d, of demo_lib] c d show ?thesis by simp
qed

text \<open>
  Claim C8. If a \<^verbatim>\<open>NextPage\<close> call of the listing fails, \<^verbatim>\<open>listS3Files\<close> and
  with it \<^verbatim>\<open>buildDownloadList\<close> end the process with status 1 (line 181), and that
  is the only way the run ends: nothing is printed.
\<close>

theorem listing_error_aborts:
  assumes "s3_config_ok e" and "failing_page (s3_list e (s3_prefix cfg)) = Some i"
  shows "listS3Files e cfg = Inl (Fatal (FailedToGetPage i)) \<and>
         buildDownloadList e cfg = Some (Inl (Fatal (FailedToGetPage i))) \<and>
         (\<forall>r. run_ends e l cfg r \<longleftrightarrow> r = Died (Fatal (FailedToGetPage i)) []) \<and>
         exit_status (Fatal (FailedToGetPage i)) = 1"
proof -
  from list_pages_fails [OF assms(2), of 0 "[]"]
  have d: "discovered e cfg = Inl (Fatal (FailedToGetPage i))" by (simp add: discovered_def)
  then have l: "listS3Files e cfg = Inl (Fatal (FailedToGetPage i))"
    by (simp add: listS3Files_def)
  then have b: "buildDownloadList e cfg = Some (Inl (Fatal (FailedToGetPage i)))"
    by (simp add: buildDownloadList_def)
  with assms(1) have "run_setup e cfg = Some (Inl (Fatal (FailedToGetPage i)))"
    by (simp add: run_setup_def)
  from run_ends_setup_dies [OF this, of l] l b show ?thesis by simp
qed

theorem listing_error_aborts_witness:
  "s3_config_ok failing_env \<and>
   failing_page (s3_list failing_env (s3_prefix demo_cfg)) = Some 2 \<and>
   buildDownloadList failing_env demo_cfg = Some (Inl (Fatal (FailedToGetPage 2))) \<and>
   run_ends failing_env demo_lib demo_cfg (Died (Fatal (FailedToGetPage 2)) [])"
proof -
  have c: "s3_config_ok failing_env" by (simp add: failing_env_def)
  have p: "failing_page (s3_list failing_env (s3_prefix demo_cfg)) = Some 2"
    by (simp add: failing_env_def)
  from listing_error_aborts [OF c p, of demo_lib] c p show ?thesis by simp
qed

section \<open>parseFlags and the width of the integers\<close>

text \<open>What \<^verbatim>\<open>parseFlags\<close> has checked of a configuration it returns.\<close>

lemma parseFlags_valid:
  assumes "parseFlags fl = Inr cfg"
  shows "\<exists>fs. fileSets (FileSetName cfg) = Some fs \<and>
           go_rem (DownloadSizeBytes cfg) (Size fs) = 0 \<and>
           Goroutines cfg \<le> go_quo (DownloadSizeBytes cfg) (Size fs)"
  using assms
  by (cases "fileSets (flag_set fl)") (auto simp: parseFlags_def Let_def split: if_splits)

lemma sint_small:
  assumes "uint (w :: 64 word) < 2 ^ 63"
  shows "sint w = uint w"
proof -
  have "- (2 ^ 63) \<le> (0::int)" by simp
  also have "0 \<le> uint w" by simp
  finally have "- (2 ^ 63) \<le> uint w" .
  with assms have "signed_take_bit (63::nat) (uint w) = uint w"
    by (intro signed_take_bit_int_eq_self)
  then show ?thesis by (simp add: sint_uint)
qed

lemma uint_shift: "uint (d :: 64 word) < 2 ^ 43 \<Longrightarrow> uint (d * 1048576) = uint d * 1048576"
  by (simp add: uint_word_ariths)

lemma go_rem_nonneg: "0 \<le> a \<Longrightarrow> 0 < b \<Longrightarrow> go_rem a b = a mod b"
  by (simp add: go_rem_def go_quo_nonneg minus_mult_div_eq_mod)

text \<open>
  As long as the two numbers fit (fewer than \<open>2^63\<close> goroutines, fewer than
  \<open>2^43\<close> MiB), \<^verbatim>\<open>parseFlags\<close> decides by the numbers the user gave: it rejects an
  unknown file set, a volume that is no multiple of the object size and a worker
  count above the number of files, and accepts everything else.
\<close>

lemma parseFlags_in_range:
  assumes "uint (flag_goroutines fl) < 2 ^ 63" and "uint (flag_download fl) < 2 ^ 43"
  shows "parseFlags fl =
    (case fileSets (flag_set fl) of
       None \<Rightarrow> Inl (Fatal (UnknownFileSet (flag_set fl)))
     | Some fs \<Rightarrow>
         if (uint (flag_download fl) * MiB) mod Size fs \<noteq> 0
         then Inl (Fatal NotMultipleOfFileSetSize)
         else if uint (flag_goroutines fl) > (uint (flag_download fl) * MiB) div Size fs
         then Inl (Fatal TooManyGoroutines)
         else Inr \<lparr>Count = sint (flag_count fl),
                   DownloadSizeBytes = uint (flag_download fl) * MiB,
                   EC2Instance = flag_instance fl,
                   FileSetName = flag_set fl,
                   Goroutines = uint (flag_goroutines fl)\<rparr>)"
proof (cases "fileSets (flag_set fl)")
  case None
  then show ?thesis by (simp add: parseFlags_def)
next
  case (Some fs)
  from fileSets_Size [OF Some] have pos: "0 < Size fs" by simp
  have d: "sint (flag_download fl * 1048576) = uint (flag_download fl) * MiB"
  proof -
    have "uint (flag_download fl * 1048576) = uint (flag_download fl) * 1048576"
      using assms(2) by (rule uint_shift)
    moreover have "uint (flag_download fl) * 1048576 < 2 ^ 63" using assms(2) by simp
    ultimately show ?thesis by (simp add: sint_small MiB_def KiB_def)
  qed
  have nn: "0 \<le> uint (flag_download fl) * MiB" by (simp add: MiB_def KiB_def)
  from Some d show ?thesis
    by (simp add: parseFlags_def Let_def sint_small [OF assms(1)]
          go_rem_nonneg [OF nn pos] go_quo_nonneg [OF nn pos])
qed

text \<open>
  Claim C6 fails on the code: with \<^verbatim>\<open>--goroutines=9223372036854775808\<close> the
  conversion \<^verbatim>\<open>int(*goroutines)\<close> of line 111 is negative, the comparison with the
  one file needed does not fire, and the configuration is accepted; \<^verbatim>\<open>run\<close> lists
  the object store and builds the work list before it dies in
  \<^verbatim>\<open>make(chan string, chanSize)\<close> with a negative size.
\<close>

theorem goroutines_overflow_accepted:
  "unat (flag_goroutines big_flags) = 9223372036854775808 \<and>
   parseFlags big_flags = Inr big_cfg \<and>
   go_quo (DownloadSizeBytes big_cfg) (fileSetSize (FileSetName big_cfg)) = 1 \<and>
   buildDownloadList demo_env big_cfg = Some (Inr (Inr [''b''])) \<and>
   run_setup demo_env big_cfg = Some (Inl (Panic MakeChanSize))"
proof -
  have "unat (flag_goroutines big_flags) = 9223372036854775808" by (simp add: big_flags_def)
  moreover have "parseFlags big_flags = Inr big_cfg" by code_simp
  moreover have "go_quo (DownloadSizeBytes big_cfg) (fileSetSize (FileSetName big_cfg)) = 1"
    by code_simp
  moreover have "buildDownloadList demo_env big_cfg = Some (Inr (Inr [''b'']))" by code_simp
  moreover have "run_setup demo_env big_cfg = Some (Inl (Panic MakeChanSize))" by code_simp
  ultimately show ?thesis by simp
qed

end
